theory Spec2Isabelle
  imports Main "HOL-Library.Word"
begin

section \<open>JavaScript strings\<close>

text \<open>
  A JavaScript string is a sequence of 16-bit code units.  The functions of
  \<^verbatim>\<open>extension.ts\<close> only ever look at code units, never at code points, so a
  string is modelled as a list of 16-bit words.  \<open>js\<close> embeds an ASCII literal.
\<close>

type_synonym jschar = "16 word"
type_synonym jsstring = "jschar list"

definition js :: "string \<Rightarrow> jsstring" where
  "js = map of_char"

abbreviation DQUOTE :: jschar where "DQUOTE \<equiv> 0x22"
abbreviation BSLASH :: jschar where "BSLASH \<equiv> 0x5C"
abbreviation SLASH :: jschar where "SLASH \<equiv> 0x2F"
abbreviation COLON :: jschar where "COLON \<equiv> 0x3A"
abbreviation COMMA :: jschar where "COMMA \<equiv> 0x2C"
abbreviation LBRACE :: jschar where "LBRACE \<equiv> 0x7B"
abbreviation RBRACE :: jschar where "RBRACE \<equiv> 0x7D"
abbreviation LBRACK :: jschar where "LBRACK \<equiv> 0x5B"
abbreviation RBRACK :: jschar where "RBRACK \<equiv> 0x5D"
abbreviation CR :: jschar where "CR \<equiv> 0x0D"
abbreviation LF :: jschar where "LF \<equiv> 0x0A"
abbreviation BOM :: jschar where "BOM \<equiv> 0xFEFF"

text \<open>
  \<^verbatim>\<open>String.prototype.trim\<close> and the regular expression class \<^verbatim>\<open>\s\<close> use the
  ECMAScript white space and line terminator code units.
\<close>

definition is_js_space :: "jschar \<Rightarrow> bool" where
  "is_js_space c \<longleftrightarrow>
     c = 0x09 \<or> c = 0x0A \<or> c = 0x0B \<or> c = 0x0C \<or> c = 0x0D \<or> c = 0x20 \<or>
     c = 0xA0 \<or> c = 0x1680 \<or> (0x2000 \<le> c \<and> c \<le> 0x200A) \<or>
     c = 0x2028 \<or> c = 0x2029 \<or> c = 0x202F \<or> c = 0x205F \<or> c = 0x3000 \<or>
     c = 0xFEFF"

definition trim :: "jsstring \<Rightarrow> jsstring" where
  "trim s = rev (dropWhile is_js_space (rev (dropWhile is_js_space s)))"

definition startsWith :: "jsstring \<Rightarrow> jschar \<Rightarrow> bool" where
  "startsWith s c = (case s of [] \<Rightarrow> False | x # _ \<Rightarrow> x = c)"

definition endsWith :: "jsstring \<Rightarrow> jschar \<Rightarrow> bool" where
  "endsWith s c = (case rev s of [] \<Rightarrow> False | x # _ \<Rightarrow> x = c)"

text \<open>
  \<^verbatim>\<open>s.slice(a, b)\<close> and \<^verbatim>\<open>s.slice(a)\<close>: a negative index counts from the end, every
  index is clamped to the string, and an empty range gives the empty string.
\<close>

definition clamp_index :: "int \<Rightarrow> nat \<Rightarrow> nat" where
  "clamp_index i len = (if i < 0 then nat (max (int len + i) 0) else min (nat i) len)"

definition slice :: "jsstring \<Rightarrow> int \<Rightarrow> int \<Rightarrow> jsstring" where
  "slice s a b =
     (let from = clamp_index a (length s); to = clamp_index b (length s)
      in take (to - from) (drop from s))"

definition slice_from :: "jsstring \<Rightarrow> int \<Rightarrow> jsstring" where
  "slice_from s a = drop (clamp_index a (length s)) s"

section \<open>\<^verbatim>\<open>JSON.parse\<close>\<close>

text \<open>
  \<^verbatim>\<open>JSON.parse\<close> is the host's parser for the JSON grammar (ECMA-404).  It is
  modelled by a lexer and a pushdown recogniser for that grammar which builds the
  value.  A \<^verbatim>\<open>SyntaxError\<close> is the result \<open>None\<close>.  A number is kept as its lexeme:
  the double it denotes is not needed by any function of the extension.  An object
  is kept as the list of its members in source order.
\<close>

datatype json =
    JNull
  | JBool bool
  | JNumber jsstring
  | JString jsstring
  | JArray "json list"
  | JObject "(jsstring \<times> json) list"

datatype token =
    TLBrace | TRBrace | TLBrack | TRBrack | TColon | TComma
  | TString jsstring | TNumber jsstring | TTrue | TFalse | TNull

definition is_json_space :: "jschar \<Rightarrow> bool" where
  "is_json_space c \<longleftrightarrow> c = 0x20 \<or> c = 0x09 \<or> c = 0x0A \<or> c = 0x0D"

definition is_digit :: "jschar \<Rightarrow> bool" where
  "is_digit c \<longleftrightarrow> 0x30 \<le> c \<and> c \<le> 0x39"

definition hexval :: "jschar \<Rightarrow> jschar option" where
  "hexval c =
     (if 0x30 \<le> c \<and> c \<le> 0x39 then Some (c - 0x30)
      else if 0x41 \<le> c \<and> c \<le> 0x46 then Some (c - 0x41 + 10)
      else if 0x61 \<le> c \<and> c \<le> 0x66 then Some (c - 0x61 + 10)
      else None)"

definition hex4 :: "jschar \<Rightarrow> jschar \<Rightarrow> jschar \<Rightarrow> jschar \<Rightarrow> jschar option" where
  "hex4 a b c d =
     (case (hexval a, hexval b, hexval c, hexval d) of
        (Some x, Some y, Some z, Some w) \<Rightarrow> Some (x * 0x1000 + y * 0x100 + z * 0x10 + w)
      | _ \<Rightarrow> None)"

text \<open>The single-character escapes of a JSON string: \<^verbatim>\<open>\" \\ \/ \b \f \n \r \t\<close>.\<close>

definition simple_escape :: "jschar \<Rightarrow> jschar option" where
  "simple_escape e =
     (if e = DQUOTE then Some DQUOTE
      else if e = BSLASH then Some BSLASH
      else if e = SLASH then Some SLASH
      else if e = 0x62 then Some 0x08
      else if e = 0x66 then Some 0x0C
      else if e = 0x6E then Some 0x0A
      else if e = 0x72 then Some 0x0D
      else if e = 0x74 then Some 0x09
      else None)"

definition cons_fst :: "jschar \<Rightarrow> (jsstring \<times> jsstring) option \<Rightarrow> (jsstring \<times> jsstring) option" where
  "cons_fst c r = (case r of None \<Rightarrow> None | Some (str, rest) \<Rightarrow> Some (c # str, rest))"

text \<open>
  The body of a string literal, read after its opening quote: the decoded string
  and the text after the closing quote.  A control character, a bad escape and a
  missing closing quote are syntax errors.
\<close>

fun lex_string :: "jsstring \<Rightarrow> (jsstring \<times> jsstring) option" where
  "lex_string [] = None"
| "lex_string (c # cs) =
     (if c = DQUOTE then Some ([], cs)
      else if c = BSLASH then
        (case cs of
           [] \<Rightarrow> None
         | e # cs1 \<Rightarrow>
             if e = 0x75 then
               (case cs1 of
                  h1 # h2 # h3 # h4 # cs2 \<Rightarrow>
                    (case hex4 h1 h2 h3 h4 of
                       None \<Rightarrow> None
                     | Some w \<Rightarrow> cons_fst w (lex_string cs2))
                | _ \<Rightarrow> None)
             else
               (case simple_escape e of
                  None \<Rightarrow> None
                | Some d \<Rightarrow> cons_fst d (lex_string cs1)))
      else if c < 0x20 then None
      else cons_fst c (lex_string cs))"

text \<open>
  A number: \<^verbatim>\<open>-?(0|[1-9][0-9]*)(\.[0-9]+)?([eE][+-]?[0-9]+)?\<close>.  Each part returns
  the text it read and the text after it.
\<close>

definition lex_sign :: "jsstring \<Rightarrow> jsstring \<times> jsstring" where
  "lex_sign s = (case s of c # cs \<Rightarrow> if c = 0x2D then ([c], cs) else ([], s) | [] \<Rightarrow> ([], s))"

definition lex_int :: "jsstring \<Rightarrow> (jsstring \<times> jsstring) option" where
  "lex_int s =
     (case s of
        [] \<Rightarrow> None
      | c # cs \<Rightarrow>
          if c = 0x30 then Some ([c], cs)
          else if is_digit c then Some (takeWhile is_digit s, dropWhile is_digit s)
          else None)"

definition lex_frac :: "jsstring \<Rightarrow> (jsstring \<times> jsstring) option" where
  "lex_frac s =
     (case s of
        c # cs \<Rightarrow>
          if c = 0x2E then
            (if takeWhile is_digit cs = [] then None
             else Some (c # takeWhile is_digit cs, dropWhile is_digit cs))
          else Some ([], s)
      | [] \<Rightarrow> Some ([], s))"

definition lex_exp_sign :: "jsstring \<Rightarrow> jsstring \<times> jsstring" where
  "lex_exp_sign s =
     (case s of c # cs \<Rightarrow> if c = 0x2B \<or> c = 0x2D then ([c], cs) else ([], s) | [] \<Rightarrow> ([], s))"

definition lex_exp :: "jsstring \<Rightarrow> (jsstring \<times> jsstring) option" where
  "lex_exp s =
     (case s of
        c # cs \<Rightarrow>
          if c = 0x65 \<or> c = 0x45 then
            (case lex_exp_sign cs of
               (sg, ds) \<Rightarrow>
                 if takeWhile is_digit ds = [] then None
                 else Some (c # sg @ takeWhile is_digit ds, dropWhile is_digit ds))
          else Some ([], s)
      | [] \<Rightarrow> Some ([], s))"

definition lex_number :: "jsstring \<Rightarrow> (jsstring \<times> jsstring) option" where
  "lex_number s =
     (case lex_sign s of
        (sg, s1) \<Rightarrow>
          (case lex_int s1 of
             None \<Rightarrow> None
           | Some (ip, s2) \<Rightarrow>
               (case lex_frac s2 of
                  None \<Rightarrow> None
                | Some (fp, s3) \<Rightarrow>
                    (case lex_exp s3 of
                       None \<Rightarrow> None
                     | Some (ep, s4) \<Rightarrow> Some (sg @ ip @ fp @ ep, s4)))))"

fun strip_prefix :: "jsstring \<Rightarrow> jsstring \<Rightarrow> jsstring option" where
  "strip_prefix [] s = Some s"
| "strip_prefix (p # ps) [] = None"
| "strip_prefix (p # ps) (c # cs) = (if p = c then strip_prefix ps cs else None)"

definition cons_tok :: "token \<Rightarrow> token list option \<Rightarrow> token list option" where
  "cons_tok t r = (case r of None \<Rightarrow> None | Some ts \<Rightarrow> Some (t # ts))"

lemma cons_fst_Some:
  "cons_fst c r = Some (str, rest) \<Longrightarrow> \<exists>str'. r = Some (str', rest) \<and> str = c # str'"
  by (auto simp: cons_fst_def split: option.splits)

lemma lex_string_suffix: "lex_string s = Some (str, rest) \<Longrightarrow> \<exists>pre. s = pre @ rest \<and> pre \<noteq> []"
proof (induction s arbitrary: str rest rule: lex_string.induct)
  case 1
  then show ?case by simp
next
  case (2 c cs)
  show ?case
  proof (cases "c = DQUOTE")
    case True
    with "2.prems" have "rest = cs" by simp
    then have "c # cs = [c] @ rest" by simp
    then show ?thesis by blast
  next
    case nq: False
    show ?thesis
    proof (cases "c = BSLASH")
      case False
      with nq "2.prems" have "c \<ge> 0x20" and "cons_fst c (lex_string cs) = Some (str, rest)"
        by (auto split: if_splits)
      then obtain str' where "lex_string cs = Some (str', rest)"
        using cons_fst_Some by blast
      with "2.IH"(3) [OF nq False] \<open>c \<ge> 0x20\<close> obtain pre where "cs = pre @ rest"
        by (fastforce simp: not_less)
      then have "c # cs = (c # pre) @ rest" by simp
      then show ?thesis by blast
    next
      case bs: True
      then obtain e cs1 where cs: "cs = e # cs1"
        using "2.prems" nq by (cases cs) auto
      show ?thesis
      proof (cases "e = 0x75")
        case True
        then obtain h1 h2 h3 h4 cs2 w where
          cs1: "cs1 = h1 # h2 # h3 # h4 # cs2" and
          w: "hex4 h1 h2 h3 h4 = Some w" and
          r: "cons_fst w (lex_string cs2) = Some (str, rest)"
          using "2.prems" nq bs cs
          by (auto split: list.splits option.splits)
        from r obtain str' where "lex_string cs2 = Some (str', rest)"
          using cons_fst_Some by blast
        with "2.IH"(1) [OF nq bs cs True cs1 refl refl refl w] obtain pre where "cs2 = pre @ rest"
          by blast
        then have "c # cs = (c # e # h1 # h2 # h3 # h4 # pre) @ rest"
          using cs cs1 by simp
        then show ?thesis by blast
      next
        case False
        then obtain d where
          d: "simple_escape e = Some d" and
          r: "cons_fst d (lex_string cs1) = Some (str, rest)"
          using "2.prems" nq bs cs by (auto split: option.splits)
        from r obtain str' where "lex_string cs1 = Some (str', rest)"
          using cons_fst_Some by blast
        with "2.IH"(2) [OF nq bs cs False d] obtain pre where "cs1 = pre @ rest"
          by blast
        then have "c # cs = (c # e # pre) @ rest" using cs by simp
        then show ?thesis by blast
      qed
    qed
  qed
qed


lemma lex_string_shorter: "lex_string s = Some (str, rest) \<Longrightarrow> length rest < length s"
  using lex_string_suffix [of s str rest] by (auto simp: length_greater_0_conv)

lemma length_dropWhile_le': "length (dropWhile P xs) \<le> length xs"
  by (induction xs) auto

lemma lex_sign_le: "lex_sign s = (sg, r) \<Longrightarrow> length r \<le> length s"
  by (auto simp: lex_sign_def split: list.splits if_splits)

lemma lex_int_shorter: "lex_int s = Some (ip, r) \<Longrightarrow> length r < length s"
  by (auto simp: lex_int_def le_imp_less_Suc length_dropWhile_le'
      split: list.splits if_splits)

lemma lex_frac_le: "lex_frac s = Some (fp, r) \<Longrightarrow> length r \<le> length s"
  by (auto simp: lex_frac_def le_SucI length_dropWhile_le' split: list.splits if_splits)

lemma lex_exp_sign_le: "lex_exp_sign s = (sg, r) \<Longrightarrow> length r \<le> length s"
  by (auto simp: lex_exp_sign_def split: list.splits if_splits)

lemma lex_exp_le: "lex_exp s = Some (ep, r) \<Longrightarrow> length r \<le> length s"
proof -
  assume a: "lex_exp s = Some (ep, r)"
  show ?thesis
  proof (cases s)
    case Nil
    with a show ?thesis by (simp add: lex_exp_def)
  next
    case (Cons c cs)
    show ?thesis
    proof (cases "c = 0x65 \<or> c = 0x45")
      case False
      with a Cons show ?thesis by (auto simp: lex_exp_def)
    next
      case True
      obtain sg ds where sd: "lex_exp_sign cs = (sg, ds)" by (cases "lex_exp_sign cs")
      with a Cons True have "r = dropWhile is_digit ds"
        by (auto simp: lex_exp_def split: if_splits)
      moreover have "length ds \<le> length cs" using sd by (rule lex_exp_sign_le)
      moreover have "length (dropWhile is_digit ds) \<le> length ds"
        by (rule length_dropWhile_le')
      ultimately show ?thesis using Cons by simp
    qed
  qed
qed

lemma lex_number_shorter: "lex_number s = Some (l, r) \<Longrightarrow> length r < length s"
proof -
  assume a: "lex_number s = Some (l, r)"
  obtain sg s1 where 1: "lex_sign s = (sg, s1)" by (cases "lex_sign s")
  with a obtain ip s2 where 2: "lex_int s1 = Some (ip, s2)"
    by (auto simp: lex_number_def split: option.splits)
  with a 1 obtain fp s3 where 3: "lex_frac s2 = Some (fp, s3)"
    by (auto simp: lex_number_def split: option.splits)
  with a 1 2 have 4: "\<exists>ep. lex_exp s3 = Some (ep, r)"
    by (auto simp: lex_number_def split: option.splits)
  from 1 have "length s1 \<le> length s" by (rule lex_sign_le)
  moreover from 2 have "length s2 < length s1" by (rule lex_int_shorter)
  moreover from 3 have "length s3 \<le> length s2" by (rule lex_frac_le)
  moreover from 4 have "length r \<le> length s3" using lex_exp_le by blast
  ultimately show ?thesis by linarith
qed

lemma strip_prefix_le: "strip_prefix p s = Some r \<Longrightarrow> length r \<le> length s"
  by (induction p s rule: strip_prefix.induct) (auto split: if_splits)

function lexer :: "jsstring \<Rightarrow> token list option" where
  "lexer [] = Some []"
| "lexer (c # cs) =
     (if is_json_space c then lexer cs
      else if c = LBRACE then cons_tok TLBrace (lexer cs)
      else if c = RBRACE then cons_tok TRBrace (lexer cs)
      else if c = LBRACK then cons_tok TLBrack (lexer cs)
      else if c = RBRACK then cons_tok TRBrack (lexer cs)
      else if c = COLON then cons_tok TColon (lexer cs)
      else if c = COMMA then cons_tok TComma (lexer cs)
      else if c = DQUOTE then
        (case lex_string cs of
           None \<Rightarrow> None
         | Some (str, rest) \<Rightarrow> cons_tok (TString str) (lexer rest))
      else if c = 0x2D \<or> is_digit c then
        (case lex_number (c # cs) of
           None \<Rightarrow> None
         | Some (l, rest) \<Rightarrow> cons_tok (TNumber l) (lexer rest))
      else
        (case strip_prefix (js ''true'') (c # cs) of
           Some rest \<Rightarrow> cons_tok TTrue (lexer rest)
         | None \<Rightarrow>
             (case strip_prefix (js ''false'') (c # cs) of
                Some rest \<Rightarrow> cons_tok TFalse (lexer rest)
              | None \<Rightarrow>
                  (case strip_prefix (js ''null'') (c # cs) of
                     Some rest \<Rightarrow> cons_tok TNull (lexer rest)
                   | None \<Rightarrow> None))))"
  by pat_completeness auto
termination
proof (relation "measure length", goal_cases)
  case (9 c cs x2 x y)
  then show ?case using lex_string_shorter [of cs x y] by simp
next
  case (10 c cs x2 x y)
  then show ?case using lex_number_shorter [of "c # cs" x y] by simp
qed (auto simp: js_def le_imp_less_Suc split: if_splits dest!: strip_prefix_le)


text \<open>
  The recogniser reads the tokens from left to right.  Its stack holds the arrays
  and objects that are still open, each with what it has collected so far (latest
  first); an object that has read a key holds this key until its value is complete.
\<close>

datatype frame =
    FArray "json list"
  | FObject "(jsstring \<times> json) list"
  | FObjectKey "(jsstring \<times> json) list" jsstring

datatype pstate =
    PValue
  | PArrayStart
  | PObjectStart
  | PKey
  | PColon
  | PAfterValue
  | PDone json

text \<open>A complete value goes to the innermost open container, or ends the text.\<close>

fun deliver :: "json \<Rightarrow> frame list \<Rightarrow> (pstate \<times> frame list) option" where
  "deliver v [] = Some (PDone v, [])"
| "deliver v (FArray xs # st) = Some (PAfterValue, FArray (v # xs) # st)"
| "deliver v (FObjectKey ms k # st) = Some (PAfterValue, FObject ((k, v) # ms) # st)"
| "deliver v (FObject ms # st) = None"

fun start_value :: "token \<Rightarrow> frame list \<Rightarrow> (pstate \<times> frame list) option" where
  "start_value TNull st = deliver JNull st"
| "start_value TTrue st = deliver (JBool True) st"
| "start_value TFalse st = deliver (JBool False) st"
| "start_value (TNumber l) st = deliver (JNumber l) st"
| "start_value (TString str) st = deliver (JString str) st"
| "start_value TLBrack st = Some (PArrayStart, FArray [] # st)"
| "start_value TLBrace st = Some (PObjectStart, FObject [] # st)"
| "start_value _ st = None"

fun pstep :: "pstate \<Rightarrow> frame list \<Rightarrow> token \<Rightarrow> (pstate \<times> frame list) option" where
  "pstep PValue st t = start_value t st"
| "pstep PArrayStart (FArray xs # st) TRBrack = deliver (JArray (rev xs)) st"
| "pstep PArrayStart st t = start_value t st"
| "pstep PObjectStart (FObject ms # st) TRBrace = deliver (JObject (rev ms)) st"
| "pstep PObjectStart (FObject ms # st) (TString k) = Some (PColon, FObjectKey ms k # st)"
| "pstep PKey (FObject ms # st) (TString k) = Some (PColon, FObjectKey ms k # st)"
| "pstep PColon st TColon = Some (PValue, st)"
| "pstep PAfterValue (FArray xs # st) TComma = Some (PValue, FArray xs # st)"
| "pstep PAfterValue (FArray xs # st) TRBrack = deliver (JArray (rev xs)) st"
| "pstep PAfterValue (FObject ms # st) TComma = Some (PKey, FObject ms # st)"
| "pstep PAfterValue (FObject ms # st) TRBrace = deliver (JObject (rev ms)) st"
| "pstep _ _ _ = None"

fun prun :: "pstate \<Rightarrow> frame list \<Rightarrow> token list \<Rightarrow> json option" where
  "prun (PDone v) st [] = Some v"
| "prun q st [] = None"
| "prun q st (t # ts) =
     (case pstep q st t of None \<Rightarrow> None | Some (q', st') \<Rightarrow> prun q' st' ts)"

definition JSON_parse :: "jsstring \<Rightarrow> json option" where
  "JSON_parse s = (case lexer s of None \<Rightarrow> None | Some ts \<Rightarrow> prun PValue [] ts)"

section \<open>Building blocks used by the strategies\<close>

datatype error = SyntaxError

text \<open>
  \<^verbatim>\<open>tryUnwrapString\<close>: the \<^verbatim>\<open>catch\<close> branch returns \<^verbatim>\<open>s.slice(1, -1)\<close>; a parse
  that succeeds with a value that is not a string falls through to \<^verbatim>\<open>return s\<close>.
\<close>

definition tryUnwrapString :: "jsstring \<Rightarrow> jsstring" where
  "tryUnwrapString s =
     (if startsWith s DQUOTE \<and> endsWith s DQUOTE then
        (case JSON_parse s of
           None \<Rightarrow> slice s 1 (- 1)
         | Some inner \<Rightarrow> (case inner of JString str \<Rightarrow> str | _ \<Rightarrow> s))
      else s)"

text \<open>
  \<^verbatim>\<open>wrapAndUnescape\<close> has no \<^verbatim>\<open>try\<close>: the \<^verbatim>\<open>SyntaxError\<close> of \<^verbatim>\<open>JSON.parse\<close>
  leaves the function.
\<close>

definition wrapAndUnescape :: "jsstring \<Rightarrow> error + jsstring" where
  "wrapAndUnescape s =
     (case JSON_parse (DQUOTE # s @ [DQUOTE]) of
        None \<Rightarrow> Inl SyntaxError
      | Some result \<Rightarrow> (case result of JString str \<Rightarrow> Inr str | _ \<Rightarrow> Inr s))"

section \<open>Regular-expression substitutions\<close>

text \<open>
  \<^verbatim>\<open>s.replace(/re/g, rep)\<close> scans \<open>s\<close> from left to right.  At each position the
  expression is tried; when it matches, the replacement is emitted and the scan goes
  on after the match, otherwise the character is copied and the scan moves one
  position on.  \<open>gsub\<close> is this scan for an expression given as a function from the
  character before the position (for a lookbehind) and the text at the position to
  the replacement and the text after the match.  None of the expressions of the
  extension matches the empty string, so a match always consumes a character.
\<close>

definition last_consumed :: "jsstring \<Rightarrow> jsstring \<Rightarrow> jschar option" where
  "last_consumed s rest = Some (s ! (length s - length rest - 1))"

function gsub ::
  "(jschar option \<Rightarrow> jsstring \<Rightarrow> (jsstring \<times> jsstring) option) \<Rightarrow> jschar option \<Rightarrow> jsstring \<Rightarrow> jsstring"
where
  "gsub m prev [] = []"
| "gsub m prev (c # cs) =
     (case m prev (c # cs) of
        None \<Rightarrow> c # gsub m (Some c) cs
      | Some (rep, rest) \<Rightarrow>
          if length rest < length (c # cs)
          then rep @ gsub m (last_consumed (c # cs) rest) rest
          else c # gsub m (Some c) cs)"
  by pat_completeness auto
termination
  by (relation "measure (\<lambda>(m, prev, s). length s)") auto

text \<open>A literal pattern, as in \<^verbatim>\<open>/\\"/g\<close> or \<^verbatim>\<open>/\r\n/g\<close>.\<close>

definition m_literal :: "jsstring \<Rightarrow> jsstring \<Rightarrow> jschar option \<Rightarrow> jsstring \<Rightarrow> (jsstring \<times> jsstring) option" where
  "m_literal pat rep prev s = (case strip_prefix pat s of None \<Rightarrow> None | Some rest \<Rightarrow> Some (rep, rest))"

definition replace_all :: "jsstring \<Rightarrow> jsstring \<Rightarrow> jsstring \<Rightarrow> jsstring" where
  "replace_all pat rep s = gsub (m_literal pat rep) None s"

text \<open>\<^verbatim>\<open>s.replace(pat, rep)\<close> with a string pattern replaces the first occurrence only.\<close>

fun replace_first :: "jsstring \<Rightarrow> jsstring \<Rightarrow> jsstring \<Rightarrow> jsstring" where
  "replace_first pat rep [] = (case strip_prefix pat [] of None \<Rightarrow> [] | Some rest \<Rightarrow> rep @ rest)"
| "replace_first pat rep (c # cs) =
     (case strip_prefix pat (c # cs) of
        None \<Rightarrow> c # replace_first pat rep cs
      | Some rest \<Rightarrow> rep @ rest)"

text \<open>The class \<^verbatim>\<open>[A-Za-z0-9._-]\<close> of the lookbehinds and the class \<^verbatim>\<open>[\\/]\<close>.\<close>

definition is_url_char :: "jschar \<Rightarrow> bool" where
  "is_url_char c \<longleftrightarrow>
     (0x41 \<le> c \<and> c \<le> 0x5A) \<or> (0x61 \<le> c \<and> c \<le> 0x7A) \<or> (0x30 \<le> c \<and> c \<le> 0x39) \<or>
     c = 0x2E \<or> c = 0x5F \<or> c = 0x2D"

definition is_slash :: "jschar \<Rightarrow> bool" where
  "is_slash c \<longleftrightarrow> c = BSLASH \<or> c = SLASH"

text \<open>\<^verbatim>\<open>(?<![A-Za-z0-9._-])\<close>: at the start of the text, or after another character.\<close>

definition lookbehind_ok :: "jschar option \<Rightarrow> bool" where
  "lookbehind_ok prev = (case prev of None \<Rightarrow> True | Some p \<Rightarrow> \<not> is_url_char p)"

text \<open>
  \<^verbatim>\<open>/(?<![A-Za-z0-9._-])[\\/]+(")([^"]*?)[\\/]+(")/g\<close> with \<^verbatim>\<open>'$1$2$3'\<close>.
  The first run \<^verbatim>\<open>[\\/]+\<close> must end where a quote stands, so it is the whole run of
  slashes at the position.  Neither \<^verbatim>\<open>[^"]*?\<close> nor \<^verbatim>\<open>[\\/]+\<close> matches a quote, so
  the second quote is the next quote of the text, and the text \<open>t\<close> between the two
  quotes is split into the lazy group and a non-empty run of slashes: the shortest
  group leaves the longest run, all slashes at the end of \<open>t\<close>.
\<close>

definition strip_trailing :: "(jschar \<Rightarrow> bool) \<Rightarrow> jsstring \<Rightarrow> jsstring" where
  "strip_trailing P t = rev (dropWhile P (rev t))"

definition m_symmetric :: "jschar option \<Rightarrow> jsstring \<Rightarrow> (jsstring \<times> jsstring) option" where
  "m_symmetric prev s =
     (if lookbehind_ok prev \<and> takeWhile is_slash s \<noteq> [] then
        (case dropWhile is_slash s of
           [] \<Rightarrow> None
         | q # r \<Rightarrow>
             if q = DQUOTE then
               (let t = takeWhile (\<lambda>x. x \<noteq> DQUOTE) r in
                case dropWhile (\<lambda>x. x \<noteq> DQUOTE) r of
                  [] \<Rightarrow> None
                | q' # r' \<Rightarrow>
                    if t \<noteq> [] \<and> is_slash (last t)
                    then Some (DQUOTE # strip_trailing is_slash t @ [DQUOTE], r')
                    else None)
             else None)
      else None)"

definition strip_symmetric :: "jsstring \<Rightarrow> jsstring" where
  "strip_symmetric s = gsub m_symmetric None s"

text \<open>
  \<^verbatim>\<open>/(?<![A-Za-z0-9._-])[\\/]+(?=")/g\<close> with \<^verbatim>\<open>''\<close>, and the variant
  \<^verbatim>\<open>/(?<![A-Za-z0-9._-])\/+(?=")/g\<close> of strategy 5, where the run is of \<^verbatim>\<open>/\<close> only.
  The lookahead holds only after the whole run; the quote is not consumed.
\<close>

definition m_leading :: "(jschar \<Rightarrow> bool) \<Rightarrow> jschar option \<Rightarrow> jsstring \<Rightarrow> (jsstring \<times> jsstring) option" where
  "m_leading cls prev s =
     (if lookbehind_ok prev \<and> takeWhile cls s \<noteq> [] then
        (case dropWhile cls s of
           [] \<Rightarrow> None
         | q # r \<Rightarrow> if q = DQUOTE then Some ([], q # r) else None)
      else None)"

definition strip_leading :: "jsstring \<Rightarrow> jsstring" where
  "strip_leading s = gsub (m_leading is_slash) None s"

definition strip_leading_forward :: "jsstring \<Rightarrow> jsstring" where
  "strip_leading_forward s = gsub (m_leading (\<lambda>c. c = SLASH)) None s"

text \<open>
  \<^verbatim>\<open>/"([^"/]*)\/+"/g\<close> with \<^verbatim>\<open>'"$1"'\<close>.  The group is the whole run of characters
  other than quote and slash after the opening quote, then come all slashes that
  follow, then a quote.
\<close>

definition m_trailing :: "jschar option \<Rightarrow> jsstring \<Rightarrow> (jsstring \<times> jsstring) option" where
  "m_trailing prev s =
     (case s of
        [] \<Rightarrow> None
      | q # r \<Rightarrow>
          if q = DQUOTE then
            (let c = takeWhile (\<lambda>x. x \<noteq> DQUOTE \<and> x \<noteq> SLASH) r;
                 r1 = dropWhile (\<lambda>x. x \<noteq> DQUOTE \<and> x \<noteq> SLASH) r
             in if takeWhile (\<lambda>x. x = SLASH) r1 \<noteq> [] then
                  (case dropWhile (\<lambda>x. x = SLASH) r1 of
                     [] \<Rightarrow> None
                   | q' # r2 \<Rightarrow> if q' = DQUOTE then Some (DQUOTE # c @ [DQUOTE], r2) else None)
                else None)
          else None)"

definition strip_trailing_slash :: "jsstring \<Rightarrow> jsstring" where
  "strip_trailing_slash s = gsub m_trailing None s"

text \<open>\<^verbatim>\<open>/,\s*([}\]])/g\<close> with \<^verbatim>\<open>'$1'\<close>.\<close>

definition m_trailing_comma :: "jschar option \<Rightarrow> jsstring \<Rightarrow> (jsstring \<times> jsstring) option" where
  "m_trailing_comma prev s =
     (case s of
        [] \<Rightarrow> None
      | k # r \<Rightarrow>
          if k = COMMA then
            (case dropWhile is_js_space r of
               [] \<Rightarrow> None
             | b # r1 \<Rightarrow> if b = RBRACE \<or> b = RBRACK then Some ([b], r1) else None)
          else None)"

definition strip_trailing_commas :: "jsstring \<Rightarrow> jsstring" where
  "strip_trailing_commas s = gsub m_trailing_comma None s"

text \<open>\<^verbatim>\<open>/^\uFEFF/\<close> with \<^verbatim>\<open>''\<close>.\<close>

definition strip_bom :: "jsstring \<Rightarrow> jsstring" where
  "strip_bom s = (case s of [] \<Rightarrow> [] | c # cs \<Rightarrow> if c = BOM then cs else s)"

text \<open>
  \<^verbatim>\<open>/^"(\{[\s\S]*\})"$/\<close> and \<^verbatim>\<open>/^"(\[[\s\S]*\])"$/\<close> with \<^verbatim>\<open>'$1'\<close>: the whole
  text is a quote, the opening bracket, any characters, the closing bracket and a
  quote.
\<close>

definition strip_outer :: "jschar \<Rightarrow> jschar \<Rightarrow> jsstring \<Rightarrow> jsstring" where
  "strip_outer opn cls s =
     (if 4 \<le> length s \<and> s ! 0 = DQUOTE \<and> s ! 1 = opn \<and>
         s ! (length s - 2) = cls \<and> s ! (length s - 1) = DQUOTE
      then take (length s - 2) (drop 1 s)
      else s)"

section \<open>The nested-JSON unquoter\<close>

text \<open>
  \<^verbatim>\<open>result.indexOf(pattern, searchFrom)\<close>: the first index at or after
  \<^verbatim>\<open>searchFrom\<close> where the pattern stands, \<open>None\<close> for \<^verbatim>\<open>-1\<close>.
\<close>

fun find_from :: "jsstring \<Rightarrow> jsstring \<Rightarrow> nat \<Rightarrow> nat option" where
  "find_from pat [] k = (if pat = [] then Some k else None)"
| "find_from pat (c # cs) k =
     (if strip_prefix pat (c # cs) \<noteq> None then Some k else find_from pat cs (Suc k))"

definition indexOf :: "jsstring \<Rightarrow> jsstring \<Rightarrow> nat \<Rightarrow> nat option" where
  "indexOf s pat from = find_from pat (drop (min from (length s)) s) (min from (length s))"

text \<open>
  The bracket-balancing loop of \<^verbatim>\<open>unquoteJsonStringValues\<close>
  (\<^verbatim>\<open>while (pos < result.length && depth > 0)\<close>); it returns the final \<^verbatim>\<open>pos\<close>.
\<close>

function balance :: "jschar \<Rightarrow> jschar \<Rightarrow> jsstring \<Rightarrow> nat \<Rightarrow> nat \<Rightarrow> nat" where
  "balance opn cls result pos depth =
     (if pos < length result \<and> 0 < depth then
        balance opn cls result (pos + 1)
          (if result ! pos = opn then depth + 1
           else if result ! pos = cls then depth - 1
           else depth)
      else pos)"
  by pat_completeness auto
termination
  by (relation "measure (\<lambda>(opn, cls, result, pos, depth). length result - pos)") auto

declare balance.simps [simp del]

lemma strip_prefix_length: "strip_prefix p s = Some r \<Longrightarrow> length s = length p + length r"
  by (induction p s rule: strip_prefix.induct) (auto split: if_splits)

lemma find_from_bounds:
  "find_from pat s k = Some idx \<Longrightarrow> k \<le> idx \<and> idx + length pat \<le> k + length s"
proof (induction pat s k rule: find_from.induct)
  case (1 pat k)
  then show ?case by (auto split: if_splits)
next
  case (2 pat c cs k)
  show ?case
  proof (cases "strip_prefix pat (c # cs)")
    case None
    with 2 show ?thesis by fastforce
  next
    case (Some r)
    with "2.prems" have "idx = k" by simp
    with Some show ?thesis using strip_prefix_length by fastforce
  qed
qed

lemma indexOf_bounds:
  "indexOf s pat from = Some idx \<Longrightarrow> from < length s \<Longrightarrow> from \<le> idx \<and> idx + length pat \<le> length s"
  using find_from_bounds [of pat "drop (min from (length s)) s" "min from (length s)" idx]
  by (simp add: indexOf_def)

text \<open>
  The inner \<^verbatim>\<open>while (searchFrom < result.length)\<close> loop for one kind of bracket:
  \<open>Some\<close> of the new \<^verbatim>\<open>result\<close> when a pair of quotes was removed (\<^verbatim>\<open>changed = true\<close>),
  \<open>None\<close> when the loop ends without a change.
\<close>

function scan_kind :: "jschar \<Rightarrow> jschar \<Rightarrow> jsstring \<Rightarrow> nat \<Rightarrow> jsstring option" where
  "scan_kind opn cls result searchFrom =
     (if searchFrom < length result then
        (case indexOf result [COLON, DQUOTE, opn] searchFrom of
           None \<Rightarrow> None
         | Some idx \<Rightarrow>
             (let quotePos = idx + 1;
                  openPos = idx + 2;
                  pos = balance opn cls result (openPos + 1) 1;
                  closePos = pos - 1
              in if closePos + 1 < length result \<and> result ! (closePos + 1) = DQUOTE
                 then Some (slice result 0 (int quotePos) @
                            slice result (int quotePos + 1) (int closePos + 1) @
                            slice_from result (int closePos + 2))
                 else scan_kind opn cls result (idx + 1)))
      else None)"
  by pat_completeness auto
termination
proof (relation "measure (\<lambda>(opn, cls, result, searchFrom). length result - searchFrom)", goal_cases)
  case 1
  show ?case by simp
next
  case (2 opn cls result searchFrom idx quotePos openPos pos closePos)
  then have "searchFrom \<le> idx \<and> idx + 3 \<le> length result"
    using indexOf_bounds [of result "[COLON, DQUOTE, opn]" searchFrom idx] by simp
  then have "length result - Suc idx < length result - searchFrom"
    by arith
  then show ?case by simp
qed


declare scan_kind.simps [simp del]



lemma balance_ge: "pos \<le> balance opn cls s pos d"
proof (induction opn cls s pos d rule: balance.induct)
  case (1 opn cls result pos depth)
  show ?case
  proof (cases "pos < length result \<and> 0 < depth")
    case True
    with "1.IH" have "pos + 1 \<le> balance opn cls result pos depth"
      by (subst balance.simps) simp
    then show ?thesis by simp
  next
    case False
    then show ?thesis by (subst balance.simps) auto
  qed
qed

lemma slice_nat: "slice s (int a) (int b) = take (b - a) (drop a s)"
proof (cases "a < length s")
  case True
  then show ?thesis
    by (cases "b < length s") (simp_all add: slice_def clamp_index_def Let_def min_def)
next
  case False
  then show ?thesis
    by (simp add: slice_def clamp_index_def Let_def min_def)
qed

lemma slice_from_nat: "slice_from s (int a) = drop a s"
  by (simp add: slice_from_def clamp_index_def min_def)

definition delete_at :: "nat \<Rightarrow> 'a list \<Rightarrow> 'a list" where
  "delete_at i xs = take i xs @ drop (Suc i) xs"

lemma length_delete_at: "i < length xs \<Longrightarrow> length (delete_at i xs) = length xs - 1"
  by (simp add: delete_at_def)

lemma delete_two:
  assumes "q < p" and "p < length xs"
  shows "delete_at q (delete_at p xs) = take q xs @ take (p - Suc q) (drop (Suc q) xs) @ drop (Suc p) xs"
proof -
  have "take q (take p xs @ drop (Suc p) xs) = take q xs"
    using assms by (simp add: min_def)
  moreover have "drop (Suc q) (take p xs @ drop (Suc p) xs) = take (p - Suc q) (drop (Suc q) xs) @ drop (Suc p) xs"
    using assms by (simp add: drop_take)
  ultimately show ?thesis by (simp add: delete_at_def)
qed

lemma length_delete_two:
  assumes "q < p" and "p < length xs"
  shows "length (delete_at q (delete_at p xs)) + 2 = length xs"
proof -
  have 1: "length (delete_at p xs) = length xs - 1"
    using assms by (simp add: length_delete_at)
  with assms have "q < length (delete_at p xs)" by simp
  then have "length (delete_at q (delete_at p xs)) = length (delete_at p xs) - 1"
    by (rule length_delete_at)
  with 1 assms show ?thesis by simp
qed

lemma scan_kind_step:
  "scan_kind opn cls s k =
     (if k < length s then
        (case indexOf s [COLON, DQUOTE, opn] k of
           None \<Rightarrow> None
         | Some idx \<Rightarrow>
             if balance opn cls s (idx + 3) 1 < length s \<and> s ! balance opn cls s (idx + 3) 1 = DQUOTE
             then Some (delete_at (idx + 1) (delete_at (balance opn cls s (idx + 3) 1) s))
             else scan_kind opn cls s (idx + 1))
      else None)"
proof (cases "k < length s")
  case False
  then show ?thesis by (subst scan_kind.simps) simp
next
  case lt: True
  show ?thesis
  proof (cases "indexOf s [COLON, DQUOTE, opn] k")
    case None
    with lt show ?thesis by (subst scan_kind.simps) simp
  next
    case (Some idx)
    define p where "p = balance opn cls s (idx + 3) 1"
    have ge: "idx + 3 \<le> p" unfolding p_def by (rule balance_ge)
    then have p1: "p - 1 + 1 = p" by simp
    have sl: "slice s 0 (int (idx + 1)) @ slice s (int (idx + 1) + 1) (int (p - 1) + 1) @
              slice_from s (int (p - 1) + 2) =
              take (idx + 1) s @ take (p - Suc (idx + 1)) (drop (Suc (idx + 1)) s) @ drop (Suc p) s"
    proof -
      have "slice s 0 (int (idx + 1)) = take (idx + 1) s"
        using slice_nat [of s 0 "idx + 1"] by simp
      moreover have "int (idx + 1) + 1 = int (idx + 2)" by simp
      moreover have "int (p - 1) + 1 = int p" using ge by simp
      moreover have "int (p - 1) + 2 = int (Suc p)" using ge by simp
      ultimately show ?thesis
        by (simp only: slice_nat slice_from_nat) simp
    qed
    have b: "balance opn cls s (idx + 2 + 1) 1 = p"
      by (simp add: p_def numeral_3_eq_3)
    have "scan_kind opn cls s k =
            (if p - 1 + 1 < length s \<and> s ! (p - 1 + 1) = DQUOTE
             then Some (slice s 0 (int (idx + 1)) @ slice s (int (idx + 1) + 1) (int (p - 1) + 1) @
                        slice_from s (int (p - 1) + 2))
             else scan_kind opn cls s (idx + 1))"
      by (subst scan_kind.simps) (simp only: lt Some if_True option.case Let_def b)
    also have "\<dots> = (if p < length s \<and> s ! p = DQUOTE
             then Some (delete_at (idx + 1) (delete_at p s))
             else scan_kind opn cls s (idx + 1))"
    proof (cases "p < length s \<and> s ! p = DQUOTE")
      case True
      then have "delete_at (idx + 1) (delete_at p s) =
          take (idx + 1) s @ take (p - Suc (idx + 1)) (drop (Suc (idx + 1)) s) @ drop (Suc p) s"
        using ge by (intro delete_two) simp_all
      with True show ?thesis by (simp only: p1 sl if_True)
    next
      case False
      then show ?thesis by (simp only: p1 if_False)
    qed
    finally show ?thesis
      by (simp only: lt Some if_True option.case p_def)
  qed
qed

lemma scan_kind_shortens:
  "scan_kind opn cls s k = Some r \<Longrightarrow> length r + 2 = length s"
proof (induction opn cls s k rule: scan_kind.induct)
  case (1 opn cls result searchFrom)
  from "1.prems" have lt: "searchFrom < length result"
    by (subst (asm) scan_kind_step) (simp split: if_splits)
  with "1.prems" obtain idx where idx: "indexOf result [COLON, DQUOTE, opn] searchFrom = Some idx"
    by (subst (asm) scan_kind_step) (auto split: option.splits)
  define p where "p = balance opn cls result (idx + 3) 1"
  have ge: "idx + 3 \<le> p" unfolding p_def by (rule balance_ge)
  show ?case
  proof (cases "p < length result \<and> result ! p = DQUOTE")
    case False
    with "1.prems" lt idx have "scan_kind opn cls result (idx + 1) = Some r"
      by (subst (asm) scan_kind_step) (auto simp: p_def)
    moreover have "\<not> (balance opn cls result (idx + 2 + 1) 1 - 1 + 1 < length result \<and>
       result ! (balance opn cls result (idx + 2 + 1) 1 - 1 + 1) = DQUOTE)"
      using False ge by (simp add: p_def numeral_3_eq_3)
    ultimately show ?thesis
      using "1.IH" [OF lt idx refl refl refl refl] by blast
  next
    case True
    with "1.prems" lt idx have "r = delete_at (idx + 1) (delete_at p result)"
      by (subst (asm) scan_kind_step) (auto simp: p_def)
    moreover have "length (delete_at (idx + 1) (delete_at p result)) + 2 = length result"
      using True ge by (intro length_delete_two) simp_all
    ultimately show ?thesis by simp
  qed
qed


text \<open>
  The outer \<^verbatim>\<open>while (changed)\<close> loop: braces first, then brackets; any change
  restarts the loop, and a pass without a change returns.
\<close>

function unquoteJsonStringValues :: "jsstring \<Rightarrow> jsstring" where
  "unquoteJsonStringValues result =
     (case scan_kind LBRACE RBRACE result 0 of
        Some r \<Rightarrow> unquoteJsonStringValues r
      | None \<Rightarrow>
          (case scan_kind LBRACK RBRACK result 0 of
             Some r \<Rightarrow> unquoteJsonStringValues r
           | None \<Rightarrow> result))"
  by pat_completeness auto
termination
proof (relation "measure length", goal_cases)
  case 1
  show ?case by simp
next
  case (2 result r)
  from scan_kind_shortens [OF 2(2)] show ?case by simp
next
  case (3 result r)
  from scan_kind_shortens [OF 3] show ?case by simp
qed

declare unquoteJsonStringValues.simps [simp del]

section \<open>The deep cleaner\<close>

text \<open>One iteration of the multi-pass unescape loop, and the loop with its counter.\<close>

definition unescape_pass :: "jsstring \<Rightarrow> jsstring" where
  "unescape_pass s =
     replace_all [BSLASH, BSLASH] [BSLASH]
       (replace_all [BSLASH, SLASH] [SLASH]
          (replace_all [BSLASH, DQUOTE] [DQUOTE] s))"

function unescape_loop :: "jsstring \<Rightarrow> jsstring \<Rightarrow> nat \<Rightarrow> jsstring \<times> nat" where
  "unescape_loop prev result iterations =
     (if prev \<noteq> result \<and> iterations < 5
      then unescape_loop result (unescape_pass result) (iterations + 1)
      else (result, iterations))"
  by pat_completeness auto
termination
  by (relation "measure (\<lambda>(prev, result, iterations). 5 - iterations)") auto

declare unescape_loop.simps [simp del]

definition grafanaDeepClean :: "jsstring \<Rightarrow> jsstring" where
  "grafanaDeepClean s =
     (let result = strip_bom s;
          result = replace_all [CR] [LF] (replace_all [CR, LF] [LF] result);
          result = tryUnwrapString result;
          result = tryUnwrapString result;
          result = strip_symmetric result;
          result = replace_first (js ''/\"'') [DQUOTE]
                     (replace_first (js ''//\"'') [DQUOTE]
                        (replace_first (js ''///\"'') [DQUOTE] (strip_leading result)));
          result = fst (unescape_loop [] result 0);
          result = strip_symmetric result;
          result = strip_leading result;
          result = strip_trailing_slash result;
          result = unquoteJsonStringValues result;
          result = strip_trailing_slash result;
          result = strip_outer LBRACK RBRACK (strip_outer LBRACE RBRACE result);
          result = strip_trailing_commas result
      in result)"

section \<open>The strategy pipeline\<close>

text \<open>
  A strategy either returns a candidate or raises (only \<^verbatim>\<open>wrapAndUnescape\<close> can).
  The loop of \<^verbatim>\<open>cleanAndParseJson\<close> assigns \<^verbatim>\<open>bestAttempt\<close> after the strategy has
  returned and before \<^verbatim>\<open>JSON.parse\<close> is called; the \<^verbatim>\<open>catch\<close> goes on with the next
  strategy.
\<close>

text \<open>
  \<^verbatim>\<open>ParseOk\<close> holds \<^verbatim>\<open>value\<close> and \<^verbatim>\<open>bestAttempt\<close>, \<^verbatim>\<open>ParseFail\<close> holds \<^verbatim>\<open>error\<close>
  and \<^verbatim>\<open>bestAttempt\<close>; the constructor is the field \<^verbatim>\<open>ok\<close>.
\<close>

datatype ParseResult =
    ParseOk json jsstring
  | ParseFail jsstring jsstring

definition strategies :: "(jsstring \<Rightarrow> error + jsstring) list" where
  "strategies =
     [\<lambda>s. Inr s,
      \<lambda>s. Inr (trim s),
      \<lambda>s. Inr (tryUnwrapString (trim s)),
      \<lambda>s. wrapAndUnescape (trim s),
      \<lambda>s. Inr (replace_all [BSLASH, DQUOTE] [DQUOTE] (strip_leading_forward (trim s))),
      \<lambda>s. Inr (strip_symmetric (trim s)),
      \<lambda>s. Inr (grafanaDeepClean (trim s)),
      \<lambda>s. Inr (tryUnwrapString (grafanaDeepClean (trim s)))]"

definition no_strategy_message :: jsstring where
  "no_strategy_message =
     js ''Ninguna estrategia de limpieza produjo JSON v'' @ [0xE1] @ js ''lido.''"

fun try_strategies ::
  "(jsstring \<Rightarrow> error + jsstring) list \<Rightarrow> jsstring \<Rightarrow> jsstring \<Rightarrow> ParseResult" where
  "try_strategies [] raw bestAttempt = ParseFail no_strategy_message bestAttempt"
| "try_strategies (strategy # rest) raw bestAttempt =
     (case strategy raw of
        Inl e \<Rightarrow> try_strategies rest raw bestAttempt
      | Inr cleaned \<Rightarrow>
          (case JSON_parse cleaned of
             Some parsed \<Rightarrow> ParseOk parsed cleaned
           | None \<Rightarrow> try_strategies rest raw cleaned))"

definition cleanAndParseJson :: "jsstring \<Rightarrow> ParseResult" where
  "cleanAndParseJson raw = try_strategies strategies raw raw"

section \<open>Notions used in the statements\<close>

text \<open>
  A string contains an unescaped double quote when, reading from the left with every
  backslash taking the character after it, a double quote is met.
\<close>

fun has_unescaped_quote :: "jsstring \<Rightarrow> bool" where
  "has_unescaped_quote [] = False"
| "has_unescaped_quote (c # cs) =
     (if c = DQUOTE then True
      else if c = BSLASH then (case cs of [] \<Rightarrow> False | e # cs1 \<Rightarrow> has_unescaped_quote cs1)
      else has_unescaped_quote cs)"



text \<open>A text between two quotes, each quote after \<open>n\<close> backslashes.\<close>

definition wrapped :: "nat \<Rightarrow> jsstring \<Rightarrow> jsstring" where
  "wrapped n w = replicate n BSLASH @ DQUOTE # w @ replicate n BSLASH @ [DQUOTE]"

text \<open>
  The bracket depth of a text for one kind of bracket: opening brackets minus closing
  brackets.  The bracket at \<open>c\<close> closes the bracket at \<open>o'\<close> when the depth of the text
  from \<open>o'\<close> to \<open>c\<close> is zero and the depth of every shorter text from \<open>o'\<close> is positive.
\<close>

definition net :: "jschar \<Rightarrow> jschar \<Rightarrow> jsstring \<Rightarrow> int" where
  "net opn cls xs = int (count_list xs opn) - int (count_list xs cls)"

definition matching_close :: "jschar \<Rightarrow> jschar \<Rightarrow> jsstring \<Rightarrow> nat \<Rightarrow> nat \<Rightarrow> bool" where
  "matching_close opn cls s o' c \<longleftrightarrow>
     o' < c \<and> c < length s \<and>
     net opn cls (take (Suc c - o') (drop o' s)) = 0 \<and>
     (\<forall>j \<in> {o'..<c}. 0 < net opn cls (take (Suc j - o') (drop o' s)))"

text \<open>
  At \<open>i\<close> stands a colon, then a quote, then a bracketed text that ends at its matching
  closing bracket \<open>c\<close>, then a quote.
\<close>

definition quoted_value_at :: "jschar \<Rightarrow> jschar \<Rightarrow> jsstring \<Rightarrow> nat \<Rightarrow> nat \<Rightarrow> bool" where
  "quoted_value_at opn cls s i c \<longleftrightarrow>
     s ! i = COLON \<and> s ! (i + 1) = DQUOTE \<and> matching_close opn cls s (i + 2) c \<and>
     c + 1 < length s \<and> s ! (c + 1) = DQUOTE"

definition pattern_at :: "jsstring \<Rightarrow> jschar \<Rightarrow> nat \<Rightarrow> bool" where
  "pattern_at s opn i \<longleftrightarrow>
     i + 2 < length s \<and> s ! i = COLON \<and> s ! (i + 1) = DQUOTE \<and> s ! (i + 2) = opn"

text \<open>
  One removal: the two quotes around such a bracketed text are deleted, nothing else.
\<close>

inductive unquote_step :: "jsstring \<Rightarrow> jsstring \<Rightarrow> bool" where
  braces: "quoted_value_at LBRACE RBRACE s i c \<Longrightarrow>
     unquote_step s (delete_at (i + 1) (delete_at (c + 1) s))"
| brackets: "quoted_value_at LBRACK RBRACK s i c \<Longrightarrow>
     unquote_step s (delete_at (i + 1) (delete_at (c + 1) s))"

text \<open>
  The outer loop of \<^verbatim>\<open>unquoteJsonStringValues\<close> with a budget of iterations: \<open>None\<close>
  when the budget is used up before the loop has ended.
\<close>

fun unquote_within :: "nat \<Rightarrow> jsstring \<Rightarrow> jsstring option" where
  "unquote_within 0 result = None"
| "unquote_within (Suc n) result =
     (case scan_kind LBRACE RBRACE result 0 of
        Some r \<Rightarrow> unquote_within n r
      | None \<Rightarrow>
          (case scan_kind LBRACK RBRACK result 0 of
             Some r \<Rightarrow> unquote_within n r
           | None \<Rightarrow> Some result))"

section \<open>Properties of the string-literal unwrapper\<close>

lemma cons_tok_not_Nil: "cons_tok t r \<noteq> Some []"
  by (simp add: cons_tok_def split: option.splits)

lemma lexer_DQUOTE:
  "lexer (DQUOTE # cs) =
     (case lex_string cs of None \<Rightarrow> None
      | Some (str, rest) \<Rightarrow> cons_tok (TString str) (lexer rest))"
  by (simp add: is_json_space_def)

lemma prun_Done: "prun (PDone v) st ts = (if ts = [] then Some v else None)"
  by (cases ts) simp_all

lemma lexer_spaces: "list_all is_json_space s \<Longrightarrow> lexer s = Some []"
  by (induction s) simp_all


lemma lexer_nonspace: "\<not> is_json_space c \<Longrightarrow> lexer (c # cs) \<noteq> Some []"
  by (simp add: cons_tok_not_Nil split: option.split)

lemma lexer_Nil_spaces: "lexer s = Some [] \<Longrightarrow> list_all is_json_space s"
proof (induction s)
  case Nil
  show ?case by simp
next
  case (Cons c cs)
  have sp: "is_json_space c"
    using Cons.prems lexer_nonspace by blast
  with Cons.prems have "lexer cs = Some []" by simp
  with Cons.IH sp show ?case by simp
qed

lemma JSON_parse_quoted:
  "JSON_parse (DQUOTE # cs) = Some v \<longleftrightarrow>
     (\<exists>str rest. lex_string cs = Some (str, rest) \<and> list_all is_json_space rest \<and> v = JString str)"
proof
  assume a: "JSON_parse (DQUOTE # cs) = Some v"
  then obtain str rest ts where
    ls: "lex_string cs = Some (str, rest)" and lx: "lexer rest = Some ts" and
    pr: "prun PValue [] (TString str # ts) = Some v"
    unfolding JSON_parse_def lexer_DQUOTE
    by (auto simp: cons_tok_def split: option.splits)
  from pr have "ts = []" and "v = JString str"
    by (auto simp: prun_Done split: if_splits)
  with ls lx show "\<exists>str rest. lex_string cs = Some (str, rest) \<and> list_all is_json_space rest \<and> v = JString str"
    using lexer_Nil_spaces by blast
next
  assume "\<exists>str rest. lex_string cs = Some (str, rest) \<and> list_all is_json_space rest \<and> v = JString str"
  then show "JSON_parse (DQUOTE # cs) = Some v"
    unfolding JSON_parse_def lexer_DQUOTE
    by (auto simp: cons_tok_def lexer_spaces)
qed

lemma startsWith_iff: "startsWith s c \<longleftrightarrow> (\<exists>cs. s = c # cs)"
  by (cases s) (auto simp: startsWith_def)

lemma endsWith_iff: "endsWith s c \<longleftrightarrow> s \<noteq> [] \<and> last s = c"
proof (cases s rule: rev_cases)
  case Nil
  then show ?thesis by (simp add: endsWith_def)
next
  case (snoc ys y)
  then show ?thesis by (simp add: endsWith_def)
qed

lemma slice_strip: "s \<noteq> [] \<Longrightarrow> slice s 1 (- 1) = butlast (tl s)"
proof -
  assume "s \<noteq> []"
  then obtain c cs where s: "s = c # cs" by (cases s) auto
  have "take (length cs - Suc 0) cs = butlast cs"
    by (simp add: butlast_conv_take)
  with s show ?thesis
    by (simp add: slice_def clamp_index_def Let_def)
qed

lemma quoted_string_decodes:
  assumes "startsWith s DQUOTE" and "endsWith s DQUOTE" and "JSON_parse s = Some v"
  shows "\<exists>str. v = JString str \<and> lex_string (tl s) = Some (str, [])"
proof -
  from assms(1) obtain cs where s: "s = DQUOTE # cs"
    by (auto simp: startsWith_iff)
  with assms(3) obtain str rest where
    ls: "lex_string cs = Some (str, rest)" and sp: "list_all is_json_space rest" and
    v: "v = JString str"
    by (auto simp: JSON_parse_quoted)
  from ls obtain pre where cs: "cs = pre @ rest"
    using lex_string_suffix by blast
  have "rest = []"
  proof (rule ccontr)
    assume ne: "rest \<noteq> []"
    with s cs have "last s = last rest" by simp
    with assms(2) have "last rest = DQUOTE" by (simp add: endsWith_iff)
    moreover from ne have "last rest \<in> set rest" by simp
    ultimately have "is_json_space DQUOTE"
      using sp by (metis list_all_iff)
    then show False by (simp add: is_json_space_def)
  qed
  with ls v s show ?thesis by simp
qed

text \<open>
  Claim C8.  \<^verbatim>\<open>tryUnwrapString\<close> is a total function (it never raises), and for every
  string \<open>s\<close>: when \<open>s\<close> starts and ends with a double quote and \<^verbatim>\<open>JSON.parse\<close>
  accepts it, the parsed value is a string, \<open>s\<close> is exactly one string literal, and
  the result is the decoded string; when \<open>s\<close> starts and ends with a double quote and
  \<^verbatim>\<open>JSON.parse\<close> rejects it, the result is \<open>s\<close> without its first and its last
  character, nothing unescaped; otherwise the result is \<open>s\<close>.
\<close>

theorem tryUnwrapString_cases:
  "(startsWith s DQUOTE \<and> endsWith s DQUOTE \<and> JSON_parse s = Some v \<longrightarrow>
      (\<exists>str. v = JString str \<and> lex_string (tl s) = Some (str, []) \<and> tryUnwrapString s = str)) \<and>
   (startsWith s DQUOTE \<and> endsWith s DQUOTE \<and> JSON_parse s = None \<longrightarrow>
      tryUnwrapString s = butlast (tl s)) \<and>
   (\<not> (startsWith s DQUOTE \<and> endsWith s DQUOTE) \<longrightarrow> tryUnwrapString s = s)"
proof (intro conjI impI)
  assume a: "startsWith s DQUOTE \<and> endsWith s DQUOTE \<and> JSON_parse s = Some v"
  then obtain str where "v = JString str" and "lex_string (tl s) = Some (str, [])"
    using quoted_string_decodes by blast
  moreover from this a have "tryUnwrapString s = str"
    by (simp add: tryUnwrapString_def)
  ultimately show "\<exists>str. v = JString str \<and> lex_string (tl s) = Some (str, []) \<and> tryUnwrapString s = str"
    by blast
next
  assume a: "startsWith s DQUOTE \<and> endsWith s DQUOTE \<and> JSON_parse s = None"
  then have "s \<noteq> []" by (auto simp: startsWith_iff)
  with a show "tryUnwrapString s = butlast (tl s)"
    by (simp add: tryUnwrapString_def slice_strip)
next
  assume "\<not> (startsWith s DQUOTE \<and> endsWith s DQUOTE)"
  then show "tryUnwrapString s = s"
    by (auto simp: tryUnwrapString_def)
qed

lemma w1: \<open>JSON_parse (js ''"a'' @ [BSLASH] @ js ''nb"'') = Some (JString (js ''a'' @ [LF] @ js ''b''))\<close>
  by code_simp
lemma w2: \<open>JSON_parse (js ''"a"b"'') = None\<close>
  by code_simp

theorem tryUnwrapString_cases_witness:
  \<open>(startsWith (js ''"a'' @ [BSLASH] @ js ''nb"'') DQUOTE \<and>
    endsWith (js ''"a'' @ [BSLASH] @ js ''nb"'') DQUOTE \<and>
    JSON_parse (js ''"a'' @ [BSLASH] @ js ''nb"'') = Some (JString (js ''a'' @ [LF] @ js ''b'')) \<and>
    tryUnwrapString (js ''"a'' @ [BSLASH] @ js ''nb"'') = js ''a'' @ [LF] @ js ''b'') \<and>
   (startsWith (js ''"a"b"'') DQUOTE \<and> endsWith (js ''"a"b"'') DQUOTE \<and>
    JSON_parse (js ''"a"b"'') = None \<and>
    tryUnwrapString (js ''"a"b"'') = js ''a"b'') \<and>
   (\<not> (startsWith (js ''{"a":1}'') DQUOTE \<and> endsWith (js ''{"a":1}'') DQUOTE) \<and>
    tryUnwrapString (js ''{"a":1}'') = js ''{"a":1}'')\<close>
proof -
  let ?s1 = \<open>js ''"a'' @ [BSLASH] @ js ''nb"''\<close>
  let ?v1 = \<open>JString (js ''a'' @ [LF] @ js ''b'')\<close>
  let ?s2 = \<open>js ''"a"b"''\<close>
  let ?s3 = \<open>js ''{"a":1}''\<close>
  have h1: "startsWith ?s1 DQUOTE \<and> endsWith ?s1 DQUOTE \<and> JSON_parse ?s1 = Some ?v1"
    using w1 by (simp add: startsWith_def endsWith_def js_def)
  have h2: "startsWith ?s2 DQUOTE \<and> endsWith ?s2 DQUOTE \<and> JSON_parse ?s2 = None"
    using w2 by (simp add: startsWith_def endsWith_def js_def)
  have h3: "\<not> (startsWith ?s3 DQUOTE \<and> endsWith ?s3 DQUOTE)"
    by (simp add: startsWith_def endsWith_def js_def)
  from tryUnwrapString_cases [of ?s1 ?v1] h1 have "tryUnwrapString ?s1 = js ''a'' @ [LF] @ js ''b''"
    by blast
  moreover from tryUnwrapString_cases [of ?s2] h2 have "tryUnwrapString ?s2 = butlast (tl ?s2)"
    by blast
  then have "tryUnwrapString ?s2 = js ''a\"b''"
    by (simp add: js_def)
  moreover from tryUnwrapString_cases [of ?s3] h3 have "tryUnwrapString ?s3 = ?s3"
    by blast
  ultimately show ?thesis using h1 h2 h3 by blast
qed

text \<open>
  Claim C10.  On the string that is one double quote, both the starts-with and the
  ends-with test hold, \<^verbatim>\<open>JSON.parse\<close> fails, \<^verbatim>\<open>slice(1, -1)\<close> of a string of length
  one is empty, and \<^verbatim>\<open>tryUnwrapString\<close> returns the empty string.
\<close>

theorem tryUnwrapString_single_quote:
  \<open>startsWith (js ''"'') DQUOTE \<and> endsWith (js ''"'') DQUOTE \<and>
   JSON_parse (js ''"'') = None \<and> slice (js ''"'') 1 (- 1) = [] \<and>
   tryUnwrapString (js ''"'') = []\<close>
  by (simp add: tryUnwrapString_def js_def startsWith_def endsWith_def JSON_parse_def
      slice_def clamp_index_def is_json_space_def)


section \<open>Properties of the strategy pipeline\<close>

lemma hexval_plain: "hexval h = Some x \<Longrightarrow> h \<noteq> DQUOTE \<and> h \<noteq> BSLASH"
  by (auto simp: hexval_def split: if_splits)

lemma hex4_plain:
  "hex4 a b c d = Some w \<Longrightarrow> has_unescaped_quote (a # b # c # d # s) = has_unescaped_quote s"
  by (auto simp: hex4_def split: option.splits dest!: hexval_plain)

lemma lex_string_consumed:
  "lex_string s = Some (str, rest) \<Longrightarrow>
     \<exists>pre. s = pre @ DQUOTE # rest \<and> \<not> has_unescaped_quote pre"
proof (induction s arbitrary: str rest rule: lex_string.induct)
  case 1
  then show ?case by simp
next
  case (2 c cs)
  show ?case
  proof (cases "c = DQUOTE")
    case True
    with "2.prems" have "c # cs = [] @ DQUOTE # rest \<and> \<not> has_unescaped_quote []" by simp
    then show ?thesis by blast
  next
    case nq: False
    show ?thesis
    proof (cases "c = BSLASH")
      case False
      with nq "2.prems" have "c \<ge> 0x20" and "cons_fst c (lex_string cs) = Some (str, rest)"
        by (auto split: if_splits)
      then obtain str' where "lex_string cs = Some (str', rest)"
        using cons_fst_Some by blast
      with "2.IH"(3) [OF nq False] \<open>c \<ge> 0x20\<close> obtain pre where
        "cs = pre @ DQUOTE # rest" and "\<not> has_unescaped_quote pre"
        by (fastforce simp: not_less)
      with nq False have "c # cs = (c # pre) @ DQUOTE # rest \<and> \<not> has_unescaped_quote (c # pre)"
        by simp
      then show ?thesis by blast
    next
      case bs: True
      then obtain e cs1 where cs: "cs = e # cs1"
        using "2.prems" nq by (cases cs) auto
      show ?thesis
      proof (cases "e = 0x75")
        case True
        then obtain h1 h2 h3 h4 cs2 w where
          cs1: "cs1 = h1 # h2 # h3 # h4 # cs2" and
          w: "hex4 h1 h2 h3 h4 = Some w" and
          r: "cons_fst w (lex_string cs2) = Some (str, rest)"
          using "2.prems" nq bs cs
          by (auto split: list.splits option.splits)
        from r obtain str' where "lex_string cs2 = Some (str', rest)"
          using cons_fst_Some by blast
        with "2.IH"(1) [OF nq bs cs True cs1 refl refl refl w] obtain pre where
          "cs2 = pre @ DQUOTE # rest" and "\<not> has_unescaped_quote pre"
          by blast
        with cs cs1 bs hex4_plain [OF w, of pre] have
          "c # cs = (c # e # h1 # h2 # h3 # h4 # pre) @ DQUOTE # rest \<and>
           \<not> has_unescaped_quote (c # e # h1 # h2 # h3 # h4 # pre)"
          by simp
        then show ?thesis by blast
      next
        case False
        then obtain d where
          d: "simple_escape e = Some d" and
          r: "cons_fst d (lex_string cs1) = Some (str, rest)"
          using "2.prems" nq bs cs by (auto split: option.splits)
        from r obtain str' where "lex_string cs1 = Some (str', rest)"
          using cons_fst_Some by blast
        with "2.IH"(2) [OF nq bs cs False d] obtain pre where
          "cs1 = pre @ DQUOTE # rest" and "\<not> has_unescaped_quote pre"
          by blast
        with cs bs have "c # cs = (c # e # pre) @ DQUOTE # rest \<and> \<not> has_unescaped_quote (c # e # pre)"
          by simp
        then show ?thesis by blast
      qed
    qed
  qed
qed

lemma wrapped_parse_fails:
  assumes "has_unescaped_quote s"
  shows "JSON_parse (DQUOTE # s @ [DQUOTE]) = None"
proof (rule ccontr)
  assume "JSON_parse (DQUOTE # s @ [DQUOTE]) \<noteq> None"
  then obtain v where "JSON_parse (DQUOTE # s @ [DQUOTE]) = Some v" by blast
  then obtain str rest where
    ls: "lex_string (s @ [DQUOTE]) = Some (str, rest)" and sp: "list_all is_json_space rest"
    by (auto simp: JSON_parse_quoted)
  from ls obtain pre where pre: "s @ [DQUOTE] = pre @ DQUOTE # rest" and nu: "\<not> has_unescaped_quote pre"
    using lex_string_consumed by blast
  have "rest \<noteq> []"
  proof
    assume "rest = []"
    with pre have "s = pre" by simp
    with nu assms show False by simp
  qed
  with pre have "last rest = DQUOTE"
    by (metis last_appendR last_snoc list.distinct(1) last_ConsR)
  moreover from \<open>rest \<noteq> []\<close> have "last rest \<in> set rest" by simp
  ultimately have "is_json_space DQUOTE" using sp by (metis list_all_iff)
  then show False by (simp add: is_json_space_def)
qed

lemma try_strategies_skip:
  "st raw = Inl e \<Longrightarrow>
   try_strategies (xs @ st # ys) raw best = try_strategies (xs @ ys) raw best"
  by (induction xs arbitrary: best) (auto split: sum.splits option.splits)

lemma strategies_split:
  "strategies = take 3 strategies @ (\<lambda>s. wrapAndUnescape (trim s)) # drop 4 strategies"
  by (simp add: strategies_def)

text \<open>
  Claim C9.  When the trimmed input contains an unescaped double quote, \<^verbatim>\<open>JSON.parse\<close>
  of the quote-wrapped text fails, so \<^verbatim>\<open>wrapAndUnescape\<close> raises; the loop of
  \<^verbatim>\<open>cleanAndParseJson\<close> then goes from strategy 4 to strategy 5 with \<^verbatim>\<open>bestAttempt\<close>
  unchanged, and the outcome of the pipeline is the one of the seven other
  strategies.  The loop goes on as if strategy 4 were absent: when the candidate of
  strategy 5 parses, its value and this candidate are returned (by the loop from
  strategy 4 on, and by the whole pipeline when the first three candidates do not
  parse); when it does not parse, the loop goes on at strategy 6 with this candidate
  as \<^verbatim>\<open>bestAttempt\<close>.
\<close>

theorem wrapAndUnescape_raises_and_is_skipped:
  assumes "has_unescaped_quote (trim raw)"
  shows "wrapAndUnescape (trim raw) = Inl SyntaxError \<and>
         try_strategies (drop 3 strategies) raw best = try_strategies (drop 4 strategies) raw best \<and>
         cleanAndParseJson raw = try_strategies (take 3 strategies @ drop 4 strategies) raw raw \<and>
         (JSON_parse (replace_all [BSLASH, DQUOTE] [DQUOTE] (strip_leading_forward (trim raw))) = Some v \<longrightarrow>
            try_strategies (drop 3 strategies) raw best =
              ParseOk v (replace_all [BSLASH, DQUOTE] [DQUOTE] (strip_leading_forward (trim raw)))) \<and>
         (JSON_parse (replace_all [BSLASH, DQUOTE] [DQUOTE] (strip_leading_forward (trim raw))) = None \<longrightarrow>
            try_strategies (drop 3 strategies) raw best =
              try_strategies (drop 5 strategies) raw
                (replace_all [BSLASH, DQUOTE] [DQUOTE] (strip_leading_forward (trim raw)))) \<and>
         (JSON_parse raw = None \<and> JSON_parse (trim raw) = None \<and>
          JSON_parse (tryUnwrapString (trim raw)) = None \<and>
          JSON_parse (replace_all [BSLASH, DQUOTE] [DQUOTE] (strip_leading_forward (trim raw))) = Some v \<longrightarrow>
            cleanAndParseJson raw =
              ParseOk v (replace_all [BSLASH, DQUOTE] [DQUOTE] (strip_leading_forward (trim raw))))"
proof -
  let ?c5 = "replace_all [BSLASH, DQUOTE] [DQUOTE] (strip_leading_forward (trim raw))"
  have w: "wrapAndUnescape (trim raw) = Inl SyntaxError"
    using wrapped_parse_fails [OF assms] by (simp add: wrapAndUnescape_def)
  have d3: "drop 3 strategies = (\<lambda>s. wrapAndUnescape (trim s)) # drop 4 strategies"
    by (simp add: strategies_def)
  have d4: "drop 4 strategies =
      (\<lambda>s. Inr (replace_all [BSLASH, DQUOTE] [DQUOTE] (strip_leading_forward (trim s)))) #
      drop 5 strategies"
    by (simp add: strategies_def)
  have 2: "try_strategies (drop 3 strategies) raw best = try_strategies (drop 4 strategies) raw best"
    using w by (simp add: d3)
  have 3: "cleanAndParseJson raw = try_strategies (take 3 strategies @ drop 4 strategies) raw raw"
    unfolding cleanAndParseJson_def
    by (subst strategies_split) (rule try_strategies_skip, rule w)
  have 4: "try_strategies (drop 3 strategies) raw best = ParseOk v ?c5"
    if "JSON_parse ?c5 = Some v"
    using that by (simp add: 2 d4)
  have 5: "try_strategies (drop 3 strategies) raw best = try_strategies (drop 5 strategies) raw ?c5"
    if "JSON_parse ?c5 = None"
    using that by (simp add: 2 d4)
  have 6: "cleanAndParseJson raw = ParseOk v ?c5"
    if "JSON_parse raw = None \<and> JSON_parse (trim raw) = None \<and>
        JSON_parse (tryUnwrapString (trim raw)) = None \<and> JSON_parse ?c5 = Some v"
    using that w by (simp add: cleanAndParseJson_def strategies_def)
  from w 2 3 4 5 6 show ?thesis by blast
qed

text \<open>
  Claim C1.  When \<^verbatim>\<open>JSON.parse\<close> accepts the input \<open>s\<close> with value \<open>v\<close>, the pipeline
  succeeds at strategy 1: the outcome is a success with value \<open>v\<close> and cleaned text
  \<open>s\<close>, unchanged.
\<close>

theorem cleanAndParseJson_valid:
  "JSON_parse s = Some v \<Longrightarrow> cleanAndParseJson s = ParseOk v s"
  by (simp add: cleanAndParseJson_def strategies_def)


lemma try_strategies_all_fail:
  "\<forall>st \<in> set sts. \<forall>c. st raw = Inr c \<longrightarrow> JSON_parse c = None \<Longrightarrow>
   JSON_parse (f raw) = None \<Longrightarrow>
   try_strategies (sts @ [\<lambda>s. Inr (f s)]) raw best = ParseFail no_strategy_message (f raw)"
  by (induction sts arbitrary: best) (auto split: sum.splits option.splits)

text \<open>
  Claim C2.  When no candidate produced by any of the eight strategies parses, the
  pipeline returns a failure whose best attempt is the candidate of strategy 8,
  \<^verbatim>\<open>tryUnwrapString(grafanaDeepClean(raw.trim()))\<close>.
\<close>

theorem cleanAndParseJson_failure_best_attempt:
  assumes "\<forall>st \<in> set strategies. \<forall>c. st raw = Inr c \<longrightarrow> JSON_parse c = None"
  shows "cleanAndParseJson raw =
           ParseFail no_strategy_message (tryUnwrapString (grafanaDeepClean (trim raw)))"
proof -
  have sp: "strategies = butlast strategies @ [\<lambda>s. Inr (tryUnwrapString (grafanaDeepClean (trim s)))]"
    by (simp add: strategies_def)
  have "\<forall>st \<in> set (butlast strategies). \<forall>c. st raw = Inr c \<longrightarrow> JSON_parse c = None"
    using assms by (meson in_set_butlastD)
  moreover have "JSON_parse (tryUnwrapString (grafanaDeepClean (trim raw))) = None"
    using assms by (simp add: strategies_def)
  ultimately show ?thesis
    unfolding cleanAndParseJson_def
    by (subst sp) (rule try_strategies_all_fail)
qed


theorem cleanAndParseJson_valid_witness:
  \<open>JSON_parse (js ''{"a":[1,true]}'') =
     Some (JObject [(js ''a'', JArray [JNumber (js ''1''), JBool True])]) \<and>
   cleanAndParseJson (js ''{"a":[1,true]}'') =
     ParseOk (JObject [(js ''a'', JArray [JNumber (js ''1''), JBool True])]) (js ''{"a":[1,true]}'')\<close>
proof -
  have h: \<open>JSON_parse (js ''{"a":[1,true]}'') =
     Some (JObject [(js ''a'', JArray [JNumber (js ''1''), JBool True])])\<close>
    by code_simp
  from cleanAndParseJson_valid [OF h] h show ?thesis by simp
qed

theorem cleanAndParseJson_failure_best_attempt_witness:
  \<open>list_all (\<lambda>st. \<forall>c. st (js '' {/"a/":1'') = Inr c \<longrightarrow> JSON_parse c = None) strategies \<and>
   cleanAndParseJson (js '' {/"a/":1'') = ParseFail no_strategy_message (js ''{"a":1'')\<close>
proof -
  let ?raw = \<open>js '' {/"a/":1''\<close>
  have c1: "JSON_parse ?raw = None" by code_simp
  have c2: "JSON_parse (trim ?raw) = None" by code_simp
  have c3: "JSON_parse (tryUnwrapString (trim ?raw)) = None" by code_simp
  have c4: "wrapAndUnescape (trim ?raw) = Inl SyntaxError" by code_simp
  have c5: "JSON_parse (replace_all [BSLASH, DQUOTE] [DQUOTE] (strip_leading_forward (trim ?raw))) = None"
    by code_simp
  have c6: "JSON_parse (strip_symmetric (trim ?raw)) = None" by code_simp
  have c7: "JSON_parse (grafanaDeepClean (trim ?raw)) = None" by code_simp
  have c8: "JSON_parse (tryUnwrapString (grafanaDeepClean (trim ?raw))) = None" by code_simp
  have best: \<open>tryUnwrapString (grafanaDeepClean (trim ?raw)) = js ''{"a":1''\<close> by code_simp
  have h: "\<forall>st \<in> set strategies. \<forall>c. st ?raw = Inr c \<longrightarrow> JSON_parse c = None"
    unfolding strategies_def using c1 c2 c3 c4 c5 c6 c7 c8 by simp
  from cleanAndParseJson_failure_best_attempt [OF h] h best show ?thesis
    by (simp add: list_all_iff)
qed

theorem wrapAndUnescape_raises_and_is_skipped_witness:
  \<open>has_unescaped_quote (trim (js '' {/"a/":1} '')) \<and>
   wrapAndUnescape (trim (js '' {/"a/":1} '')) = Inl SyntaxError \<and>
   JSON_parse (js '' {/"a/":1} '') = None \<and>
   JSON_parse (trim (js '' {/"a/":1} '')) = None \<and>
   JSON_parse (tryUnwrapString (trim (js '' {/"a/":1} ''))) = None \<and>
   replace_all [BSLASH, DQUOTE] [DQUOTE] (strip_leading_forward (trim (js '' {/"a/":1} ''))) =
     js ''{"a/":1}'' \<and>
   JSON_parse (js ''{"a/":1}'') = Some (JObject [(js ''a/'', JNumber (js ''1''))]) \<and>
   try_strategies (drop 3 strategies) (js '' {/"a/":1} '') (js ''{/"a/":1}'') =
     ParseOk (JObject [(js ''a/'', JNumber (js ''1''))]) (js ''{"a/":1}'') \<and>
   cleanAndParseJson (js '' {/"a/":1} '') =
     ParseOk (JObject [(js ''a/'', JNumber (js ''1''))]) (js ''{"a/":1}'')\<close>
proof -
  let ?raw = \<open>js '' {/"a/":1} ''\<close>
  let ?v = \<open>JObject [(js ''a/'', JNumber (js ''1''))]\<close>
  have h: "has_unescaped_quote (trim ?raw)" by code_simp
  have c1: "JSON_parse ?raw = None" by code_simp
  have c2: "JSON_parse (trim ?raw) = None" by code_simp
  have c3: "JSON_parse (tryUnwrapString (trim ?raw)) = None" by code_simp
  have c5: \<open>replace_all [BSLASH, DQUOTE] [DQUOTE] (strip_leading_forward (trim ?raw)) = js ''{"a/":1}''\<close>
    by code_simp
  have p5: \<open>JSON_parse (js ''{"a/":1}'') = Some ?v\<close> by code_simp
  note T = wrapAndUnescape_raises_and_is_skipped [OF h, of \<open>js ''{/"a/":1}''\<close> ?v]
  from T have w: "wrapAndUnescape (trim ?raw) = Inl SyntaxError" by blast
  from T have a0: \<open>JSON_parse (replace_all [BSLASH, DQUOTE] [DQUOTE] (strip_leading_forward (trim ?raw))) = Some ?v \<longrightarrow>
      try_strategies (drop 3 strategies) ?raw (js ''{/"a/":1}'') =
        ParseOk ?v (replace_all [BSLASH, DQUOTE] [DQUOTE] (strip_leading_forward (trim ?raw)))\<close>
    by blast
  from a0 [unfolded c5] p5 have a: \<open>try_strategies (drop 3 strategies) ?raw (js ''{/"a/":1}'') =
      ParseOk ?v (js ''{"a/":1}'')\<close>
    by blast
  from T have b0: "JSON_parse ?raw = None \<and> JSON_parse (trim ?raw) = None \<and>
      JSON_parse (tryUnwrapString (trim ?raw)) = None \<and>
      JSON_parse (replace_all [BSLASH, DQUOTE] [DQUOTE] (strip_leading_forward (trim ?raw))) = Some ?v \<longrightarrow>
      cleanAndParseJson ?raw =
        ParseOk ?v (replace_all [BSLASH, DQUOTE] [DQUOTE] (strip_leading_forward (trim ?raw)))"
    by blast
  from b0 [unfolded c5] c1 c2 c3 p5 have b: \<open>cleanAndParseJson ?raw = ParseOk ?v (js ''{"a/":1}'')\<close>
    by blast
  from h w c1 c2 c3 c5 p5 a b show ?thesis by blast
qed


section \<open>Properties of the nested-JSON unquoter\<close>

lemma unquote_within_enough:
  "length s < 2 * n \<Longrightarrow> unquote_within n s = Some (unquoteJsonStringValues s)"
proof (induction n arbitrary: s)
  case 0
  then show ?case by simp
next
  case (Suc n)
  show ?case
  proof (cases "scan_kind LBRACE RBRACE s 0")
    case (Some r)
    then have "length r + 2 = length s" by (rule scan_kind_shortens)
    with Suc.prems have "length r < 2 * n" by simp
    then have "unquote_within n r = Some (unquoteJsonStringValues r)" by (rule Suc.IH)
    with Some show ?thesis by (subst unquoteJsonStringValues.simps) simp
  next
    case None
    show ?thesis
    proof (cases "scan_kind LBRACK RBRACK s 0")
      case (Some r)
      then have "length r + 2 = length s" by (rule scan_kind_shortens)
      with Suc.prems have "length r < 2 * n" by simp
      then have "unquote_within n r = Some (unquoteJsonStringValues r)" by (rule Suc.IH)
      with None Some show ?thesis by (subst unquoteJsonStringValues.simps) simp
    next
      case n2: None
      with None show ?thesis by (subst unquoteJsonStringValues.simps) simp
    qed
  qed
qed

text \<open>
  Claim C4.  \<^verbatim>\<open>unquoteJsonStringValues\<close> terminates on every input: a removal of a
  pair of quotes shortens the string by exactly two characters, a pass over both
  kinds of bracket without a change returns, and the outer loop ends within
  \<open>length s div 2 + 1\<close> iterations.
\<close>

theorem unquoteJsonStringValues_terminates:
  "(scan_kind opn cls s k = Some r \<longrightarrow> length r + 2 = length s) \<and>
   (scan_kind LBRACE RBRACE s 0 = None \<and> scan_kind LBRACK RBRACK s 0 = None \<longrightarrow>
      unquoteJsonStringValues s = s) \<and>
   unquote_within (length s div 2 + 1) s = Some (unquoteJsonStringValues s)"
proof (intro conjI impI)
  assume "scan_kind opn cls s k = Some r"
  then show "length r + 2 = length s" by (rule scan_kind_shortens)
next
  assume "scan_kind LBRACE RBRACE s 0 = None \<and> scan_kind LBRACK RBRACK s 0 = None"
  then show "unquoteJsonStringValues s = s"
    by (subst unquoteJsonStringValues.simps) simp
next
  have "length s < 2 * (length s div 2 + 1)" by simp
  then show "unquote_within (length s div 2 + 1) s = Some (unquoteJsonStringValues s)"
    by (rule unquote_within_enough)
qed

theorem unquoteJsonStringValues_terminates_witness:
  \<open>scan_kind LBRACE RBRACE (js ''{"a":"{"b":1}"}'') 0 = Some (js ''{"a":{"b":1}}'') \<and>
   length (js ''{"a":{"b":1}}'') + 2 = length (js ''{"a":"{"b":1}"}'') \<and>
   scan_kind LBRACE RBRACE (js ''{"a":{"b":1}}'') 0 = None \<and>
   scan_kind LBRACK RBRACK (js ''{"a":{"b":1}}'') 0 = None \<and>
   unquoteJsonStringValues (js ''{"a":{"b":1}}'') = js ''{"a":{"b":1}}'' \<and>
   unquote_within (length (js ''{"a":"{"b":1}"}'') div 2 + 1) (js ''{"a":"{"b":1}"}'') =
     Some (unquoteJsonStringValues (js ''{"a":"{"b":1}"}''))\<close>
proof -
  have h1: \<open>scan_kind LBRACE RBRACE (js ''{"a":"{"b":1}"}'') 0 = Some (js ''{"a":{"b":1}}'')\<close>
    by code_simp
  have h2: \<open>scan_kind LBRACE RBRACE (js ''{"a":{"b":1}}'') 0 = None \<and>
            scan_kind LBRACK RBRACK (js ''{"a":{"b":1}}'') 0 = None\<close>
    by code_simp
  from unquoteJsonStringValues_terminates [of LBRACE RBRACE \<open>js ''{"a":"{"b":1}"}''\<close> 0 \<open>js ''{"a":{"b":1}}''\<close>]
    unquoteJsonStringValues_terminates [of LBRACE RBRACE \<open>js ''{"a":{"b":1}}''\<close> 0 \<open>[]\<close>]
    h1 h2
  show ?thesis by blast
qed


lemma net_Nil: "net opn cls [] = 0"
  by (simp add: net_def)

lemma net_Cons:
  "opn \<noteq> cls \<Longrightarrow>
   net opn cls (x # xs) = (if x = opn then 1 else if x = cls then - 1 else 0) + net opn cls xs"
  by (simp add: net_def)

lemma net_append: "net opn cls (xs @ ys) = net opn cls xs + net opn cls ys"
  by (induction xs) (simp_all add: net_def)

lemma take_drop_Suc:
  "pos < j \<Longrightarrow> pos < length s \<Longrightarrow>
   take (j - pos) (drop pos s) = s ! pos # take (j - Suc pos) (drop (Suc pos) s)"
proof -
  assume a: "pos < j" "pos < length s"
  then have "drop pos s = s ! pos # drop (Suc pos) s" by (simp add: Cons_nth_drop_Suc)
  moreover from a obtain k where "j - pos = Suc k" "j - Suc pos = k"
    by (cases "j - pos") auto
  ultimately show ?thesis by simp
qed

lemma balance_inv:
  "opn \<noteq> cls \<Longrightarrow> pos \<le> length s \<Longrightarrow>
     pos \<le> balance opn cls s pos d \<and> balance opn cls s pos d \<le> length s \<and>
     (\<forall>j. pos \<le> j \<and> j < balance opn cls s pos d \<longrightarrow>
          0 < int d + net opn cls (take (j - pos) (drop pos s))) \<and>
     (balance opn cls s pos d < length s \<longrightarrow>
          int d + net opn cls (take (balance opn cls s pos d - pos) (drop pos s)) = 0)"
proof (induction opn cls s pos d rule: balance.induct)
  case (1 opn cls s pos d)
  show ?case
  proof (cases "pos < length s \<and> 0 < d")
    case False
    then have b: "balance opn cls s pos d = pos"
      by (subst balance.simps) auto
    from False "1.prems" have "pos < length s \<longrightarrow> d = 0" by auto
    with "1.prems" show ?thesis unfolding b by (simp add: net_Nil)
  next
    case True
    define d' where "d' = (if s ! pos = opn then d + 1 else if s ! pos = cls then d - 1 else d)"
    define p where "p = balance opn cls s (pos + 1) d'"
    have b: "balance opn cls s pos d = p"
      using True by (subst balance.simps) (simp add: p_def d'_def)
    have d': "int d' = int d + net opn cls [s ! pos]"
      using True "1.prems"(1) by (simp add: d'_def net_Cons net_Nil)
    from True have le: "pos + 1 \<le> length s" by simp
    note ih = "1.IH" [OF True "1.prems"(1) le, folded d'_def, folded p_def]
    have pre: "int d + net opn cls (take (j - pos) (drop pos s)) =
               int d' + net opn cls (take (j - (pos + 1)) (drop (pos + 1) s))" if "pos < j" for j
    proof -
      have "take (j - pos) (drop pos s) = [s ! pos] @ take (j - Suc pos) (drop (Suc pos) s)"
        using take_drop_Suc [OF that, of s] True by simp
      then have "net opn cls (take (j - pos) (drop pos s)) =
                 net opn cls [s ! pos] + net opn cls (take (j - Suc pos) (drop (Suc pos) s))"
        by (simp only: net_append)
      then show ?thesis by (simp add: d')
    qed
    have 1: "pos \<le> p" using ih by simp
    have 2: "p \<le> length s" using ih by simp
    have 3: "0 < int d + net opn cls (take (j - pos) (drop pos s))" if "pos \<le> j \<and> j < p" for j
    proof (cases "j = pos")
      case True
      with \<open>pos < length s \<and> 0 < d\<close> show ?thesis by (simp add: net_Nil)
    next
      case False
      with that have "pos + 1 \<le> j \<and> j < p" by simp
      with ih have "0 < int d' + net opn cls (take (j - (pos + 1)) (drop (pos + 1) s))" by blast
      with pre [of j] False that show ?thesis by simp
    qed
    have 4: "int d + net opn cls (take (p - pos) (drop pos s)) = 0" if "p < length s"
    proof -
      from ih that have "int d' + net opn cls (take (p - (pos + 1)) (drop (pos + 1) s)) = 0" by blast
      moreover have "pos < p" using ih by simp
      ultimately show ?thesis using pre [of p] by simp
    qed
    from 1 2 3 4 show ?thesis unfolding b by blast
  qed
qed


lemma net_open:
  "opn \<noteq> cls \<Longrightarrow> o' < length s \<Longrightarrow> s ! o' = opn \<Longrightarrow> o' < j \<Longrightarrow>
   net opn cls (take (j - o') (drop o' s)) = 1 + net opn cls (take (j - Suc o') (drop (Suc o') s))"
proof -
  assume a: "opn \<noteq> cls" "o' < length s" "s ! o' = opn" "o' < j"
  have "take (j - o') (drop o' s) = s ! o' # take (j - Suc o') (drop (Suc o') s)"
    using a by (intro take_drop_Suc) simp_all
  with a show ?thesis by (simp add: net_Cons)
qed

lemma matching_closeD:
  assumes "matching_close opn cls s o' c"
  shows "o' < c" and "c < length s"
    and "net opn cls (take (Suc c - o') (drop o' s)) = 0"
    and "\<And>j. o' \<le> j \<Longrightarrow> j < c \<Longrightarrow> 0 < net opn cls (take (Suc j - o') (drop o' s))"
  using assms unfolding matching_close_def by auto

lemma balance_invD:
  assumes "opn \<noteq> cls" and "pos \<le> length s"
  shows "pos \<le> balance opn cls s pos d" and "balance opn cls s pos d \<le> length s"
    and "\<And>j. pos \<le> j \<Longrightarrow> j < balance opn cls s pos d \<Longrightarrow>
          0 < int d + net opn cls (take (j - pos) (drop pos s))"
    and "balance opn cls s pos d < length s \<Longrightarrow>
          int d + net opn cls (take (balance opn cls s pos d - pos) (drop pos s)) = 0"
  using balance_inv [OF assms, of d] by blast+

lemma matching_close_open:
  assumes "opn \<noteq> cls" and "matching_close opn cls s o' c"
  shows "s ! o' = opn"
proof -
  note m = matching_closeD [OF assms(2)]
  have "0 < net opn cls (take (Suc o' - o') (drop o' s))"
    using m(1) by (intro m(4)) simp_all
  moreover have "take (Suc o' - o') (drop o' s) = [s ! o']"
    using m(1,2) by (simp add: take_Suc_conv_app_nth)
  ultimately show ?thesis
    using assms(1) by (simp add: net_Cons net_Nil split: if_splits)
qed

lemma balance_matching:
  assumes ne: "opn \<noteq> cls" and o: "Suc o' \<le> length s" "s ! o' = opn"
    and p: "balance opn cls s (Suc o') 1 < length s"
  shows "matching_close opn cls s o' (balance opn cls s (Suc o') 1 - 1)"
proof -
  define p where "p = balance opn cls s (Suc o') 1"
  note inv = balance_invD [OF ne o(1), where d = 1, folded p_def]
  from p have plt: "p < length s" by (simp add: p_def)
  from inv(4) [OF plt] have z: "1 + net opn cls (take (p - Suc o') (drop (Suc o') s)) = 0"
    by simp
  have "p \<noteq> Suc o'"
  proof
    assume "p = Suc o'"
    with z show False by (simp add: net_Nil)
  qed
  with inv(1) have gt: "Suc o' < p" by simp
  have n: "net opn cls (take (j - o') (drop o' s)) =
           1 + net opn cls (take (j - Suc o') (drop (Suc o') s))" if "o' < j" for j
    using net_open [OF ne _ o(2) that] o(1) by simp
  have 1: "o' < p - 1" using gt by simp
  have 2: "p - 1 < length s" using plt by simp
  have "net opn cls (take (p - o') (drop o' s)) = 0"
    using n [of p] gt z by simp
  moreover have "Suc (p - 1) = p" using gt by simp
  ultimately have 3: "net opn cls (take (Suc (p - 1) - o') (drop o' s)) = 0"
    by simp
  have 4: "0 < net opn cls (take (Suc j - o') (drop o' s))" if "j \<in> {o'..<p - 1}" for j
  proof -
    from that have a: "Suc o' \<le> Suc j" and b: "Suc j < p" by auto
    from inv(3) [OF a b] have "0 < 1 + net opn cls (take (Suc j - Suc o') (drop (Suc o') s))"
      by simp
    moreover have "o' < Suc j" using that by simp
    ultimately show ?thesis using n [of "Suc j"] by simp
  qed
  from 1 2 3 4 show ?thesis
    unfolding matching_close_def p_def [symmetric] by blast
qed

lemma matching_balance:
  assumes ne: "opn \<noteq> cls" and m: "matching_close opn cls s o' c"
  shows "balance opn cls s (Suc o') 1 = Suc c"
proof -
  define p where "p = balance opn cls s (Suc o') 1"
  note mc = matching_closeD [OF m]
  have opn: "s ! o' = opn" using ne m by (rule matching_close_open)
  from mc(1,2) have le: "Suc o' \<le> length s" by simp
  note inv = balance_invD [OF ne le, where d = 1, folded p_def]
  have n: "net opn cls (take (j - o') (drop o' s)) =
           1 + net opn cls (take (j - Suc o') (drop (Suc o') s))" if "o' < j" for j
    using net_open [OF ne _ opn that] mc(1,2) by simp
  have "\<not> p \<le> c"
  proof
    assume a: "p \<le> c"
    with mc(2) have "p < length s" by simp
    from inv(4) [OF this] have "1 + net opn cls (take (p - Suc o') (drop (Suc o') s)) = 0"
      by simp
    moreover from inv(1) have g: "o' < p" by simp
    ultimately have "net opn cls (take (p - o') (drop o' s)) = 0" using n [of p] by simp
    moreover have "0 < net opn cls (take (Suc (p - 1) - o') (drop o' s))"
      using g a by (intro mc(4)) simp_all
    moreover have "Suc (p - 1) = p" using g by simp
    ultimately show False by simp
  qed
  moreover have "\<not> Suc c < p"
  proof
    assume a: "Suc c < p"
    have b: "Suc o' \<le> Suc c" using mc(1) by simp
    from inv(3) [OF b a] have "0 < 1 + net opn cls (take (Suc c - Suc o') (drop (Suc o') s))"
      by simp
    moreover have "o' < Suc c" using mc(1) by simp
    ultimately show False using n [of "Suc c"] mc(3) by simp
  qed
  ultimately show ?thesis unfolding p_def by simp
qed


lemma strip_prefix_3: "strip_prefix [a, b, c] xs \<noteq> None \<longleftrightarrow> (\<exists>r. xs = a # b # c # r)"
proof (cases xs)
  case Nil
  then show ?thesis by simp
next
  case (Cons x1 t1)
  show ?thesis
  proof (cases t1)
    case Nil
    with Cons show ?thesis by simp
  next
    case (Cons x2 t2)
    with \<open>xs = x1 # t1\<close> show ?thesis by (cases t2) auto
  qed
qed

lemma drop_3: "(\<exists>r. drop i s = a # b # c # r) \<longleftrightarrow>
    i + 2 < length s \<and> s ! i = a \<and> s ! (i + 1) = b \<and> s ! (i + 2) = c"
proof
  assume "\<exists>r. drop i s = a # b # c # r"
  then obtain r where r: "drop i s = a # b # c # r" by blast
  then have "length (drop i s) = 3 + length r" by simp
  then have l: "i + 2 < length s" by simp
  have "s ! (i + k) = (drop i s) ! k" if "i + k < length s" for k
    using that by simp
  from this [of 0] this [of 1] this [of 2] l r
  show "i + 2 < length s \<and> s ! i = a \<and> s ! (i + 1) = b \<and> s ! (i + 2) = c"
    by simp
next
  assume a: "i + 2 < length s \<and> s ! i = a \<and> s ! (i + 1) = b \<and> s ! (i + 2) = c"
  then have l0: "i < length s" and l1: "Suc i < length s" and l2: "Suc (Suc i) < length s"
    by simp_all
  have "drop i s = s ! i # drop (Suc i) s"
    using l0 by (rule Cons_nth_drop_Suc [symmetric])
  moreover have "drop (Suc i) s = s ! (Suc i) # drop (Suc (Suc i)) s"
    using l1 by (rule Cons_nth_drop_Suc [symmetric])
  moreover have "drop (Suc (Suc i)) s = s ! (Suc (Suc i)) # drop (Suc (Suc (Suc i))) s"
    using l2 by (rule Cons_nth_drop_Suc [symmetric])
  ultimately show "\<exists>r. drop i s = a # b # c # r" using a by simp
qed

lemma pattern_at_prefix:
  "pattern_at s opn i \<longleftrightarrow> strip_prefix [COLON, DQUOTE, opn] (drop i s) \<noteq> None"
  unfolding pattern_at_def strip_prefix_3 drop_3 ..

lemma find_from_Some:
  "find_from pat xs k = Some idx \<Longrightarrow>
     k \<le> idx \<and> strip_prefix pat (drop (idx - k) xs) \<noteq> None \<and>
     (\<forall>j < idx - k. strip_prefix pat (drop j xs) = None)"
proof (induction pat xs k rule: find_from.induct)
  case (1 pat k)
  then show ?case by (auto split: if_splits)
next
  case (2 pat c cs k)
  show ?case
  proof (cases "strip_prefix pat (c # cs)")
    case (Some r)
    with "2.prems" have "idx = k" by simp
    with Some show ?thesis by simp
  next
    case None
    with "2.prems" have f: "find_from pat cs (Suc k) = Some idx" by simp
    from "2.IH" [OF _ f] None have ih: "Suc k \<le> idx"
      "strip_prefix pat (drop (idx - Suc k) cs) \<noteq> None"
      "\<forall>j < idx - Suc k. strip_prefix pat (drop j cs) = None"
      by simp_all
    from ih(1) obtain m where m: "idx - k = Suc m" "idx - Suc k = m"
      by (cases "idx - k") auto
    have "strip_prefix pat (drop j (c # cs)) = None" if "j < idx - k" for j
    proof (cases j)
      case 0
      with None show ?thesis by simp
    next
      case (Suc j')
      with that m ih(3) show ?thesis by simp
    qed
    with ih m show ?thesis by simp
  qed
qed

lemma find_from_None:
  "find_from pat xs k = None \<Longrightarrow> strip_prefix pat (drop j xs) = None"
proof (induction pat xs k arbitrary: j rule: find_from.induct)
  case (1 pat k)
  then show ?case by (cases pat) (auto split: if_splits)
next
  case (2 pat c cs k)
  from "2.prems" have n: "strip_prefix pat (c # cs) = None" and
    f: "find_from pat cs (Suc k) = None"
    by (auto split: if_splits)
  show ?case
  proof (cases j)
    case 0
    with n show ?thesis by simp
  next
    case (Suc j')
    with "2.IH" [OF _ f, of j'] n show ?thesis by simp
  qed
qed

lemma indexOf_Some:
  assumes "indexOf s [COLON, DQUOTE, opn] k = Some idx" and "k < length s"
  shows "k \<le> idx" and "pattern_at s opn idx"
    and "\<And>j. k \<le> j \<Longrightarrow> j < idx \<Longrightarrow> \<not> pattern_at s opn j"
proof -
  from assms have f: "find_from [COLON, DQUOTE, opn] (drop k s) k = Some idx"
    by (simp add: indexOf_def min_def)
  note ff = find_from_Some [OF f]
  from ff show le: "k \<le> idx" by simp
  from ff le show "pattern_at s opn idx" by (simp add: pattern_at_prefix)
  show "\<not> pattern_at s opn j" if "k \<le> j" "j < idx" for j
  proof -
    from that have "j - k < idx - k" by simp
    with ff have "strip_prefix [COLON, DQUOTE, opn] (drop (j - k) (drop k s)) = None" by blast
    with that show ?thesis by (simp add: pattern_at_prefix)
  qed
qed

lemma indexOf_None:
  assumes "indexOf s [COLON, DQUOTE, opn] k = None" and "k < length s" and "k \<le> j"
  shows "\<not> pattern_at s opn j"
proof -
  from assms have f: "find_from [COLON, DQUOTE, opn] (drop k s) k = None"
    by (simp add: indexOf_def min_def)
  from find_from_None [OF f, of "j - k"] assms(3) show ?thesis
    by (simp add: pattern_at_prefix)
qed

lemma quoted_value_pattern:
  assumes "opn \<noteq> cls" and "quoted_value_at opn cls s i c"
  shows "pattern_at s opn i"
proof -
  from assms(2) have m: "matching_close opn cls s (i + 2) c" and
    q: "s ! i = COLON" "s ! (i + 1) = DQUOTE"
    by (simp_all add: quoted_value_at_def)
  from matching_closeD(1,2) [OF m] have "i + 2 < length s" by simp
  moreover have "s ! (i + 2) = opn" using assms(1) m by (rule matching_close_open)
  ultimately show ?thesis using q by (simp add: pattern_at_def)
qed


lemma scan_kind_sound:
  "scan_kind opn cls s k = Some r \<Longrightarrow> opn \<noteq> cls \<Longrightarrow>
   \<exists>i c. quoted_value_at opn cls s i c \<and> r = delete_at (i + 1) (delete_at (c + 1) s)"
proof (induction "length s - k" arbitrary: k rule: less_induct)
  case less
  from less.prems(1) have lt: "k < length s"
    by (subst (asm) scan_kind_step) (simp split: if_splits)
  with less.prems(1) obtain idx where idx: "indexOf s [COLON, DQUOTE, opn] k = Some idx"
    by (subst (asm) scan_kind_step) (auto split: option.splits)
  note io = indexOf_Some [OF idx lt]
  from io(2) have pat: "idx + 2 < length s" "s ! idx = COLON" "s ! (idx + 1) = DQUOTE"
    "s ! (idx + 2) = opn"
    by (simp_all add: pattern_at_def)
  define p where "p = balance opn cls s (idx + 3) 1"
  have p': "balance opn cls s (Suc (idx + 2)) 1 = p" by (simp add: p_def numeral_3_eq_3)
  show ?case
  proof (cases "p < length s \<and> s ! p = DQUOTE")
    case True
    with less.prems(1) lt idx have r: "r = delete_at (idx + 1) (delete_at p s)"
      by (subst (asm) scan_kind_step) (simp add: p_def)
    have le: "Suc (idx + 2) \<le> length s" using pat(1) by simp
    from True have "p < length s" ..
    then have bl: "balance opn cls s (Suc (idx + 2)) 1 < length s" by (simp only: p')
    from balance_matching [OF less.prems(2) le pat(4) bl]
    have m: "matching_close opn cls s (idx + 2) (p - 1)" by (simp only: p')
    from matching_closeD(1) [OF m] have p1: "p - 1 + 1 = p" by simp
    from True have c1: "p - 1 + 1 < length s" and c2: "s ! (p - 1 + 1) = DQUOTE"
      by (simp_all only: p1)
    have "quoted_value_at opn cls s idx (p - 1)"
      unfolding quoted_value_at_def using pat(2,3) m c1 c2 by blast
    with r p1 show ?thesis by metis
  next
    case False
    with less.prems(1) lt idx have "scan_kind opn cls s (idx + 1) = Some r"
      by (subst (asm) scan_kind_step) (auto simp: p_def)
    moreover have "length s - (idx + 1) < length s - k" using io(1) pat(1) by simp
    ultimately show ?thesis using less.hyps less.prems(2) by blast
  qed
qed

lemma scan_kind_complete:
  "scan_kind opn cls s k = None \<Longrightarrow> opn \<noteq> cls \<Longrightarrow> k \<le> i \<Longrightarrow>
   \<not> quoted_value_at opn cls s i c"
proof (induction "length s - k" arbitrary: k rule: less_induct)
  case less
  show ?case
  proof
    assume q: "quoted_value_at opn cls s i c"
    then have pi: "pattern_at s opn i" using less.prems(2) quoted_value_pattern by blast
    then have "i < length s" by (simp add: pattern_at_def)
    with less.prems(3) have lt: "k < length s" by simp
    show False
    proof (cases "indexOf s [COLON, DQUOTE, opn] k")
      case None
      from indexOf_None [OF None lt less.prems(3)] pi show False by blast
    next
      case (Some idx)
      note io = indexOf_Some [OF Some lt]
      define p where "p = balance opn cls s (idx + 3) 1"
      have le: "idx \<le> i"
      proof (rule ccontr)
        assume "\<not> idx \<le> i"
        then have "i < idx" by simp
        from io(3) [OF less.prems(3) this] pi show False by blast
      qed
      show False
      proof (cases "i = idx")
        case True
        from q have m: "matching_close opn cls s (i + 2) c" and
          c: "c + 1 < length s" "s ! (c + 1) = DQUOTE"
          by (simp_all add: quoted_value_at_def)
        from matching_balance [OF less.prems(2) m] True have "p = c + 1"
          by (simp add: p_def numeral_3_eq_3)
        with c have "p < length s \<and> s ! p = DQUOTE" by simp
        with less.prems(1) lt Some show False
          by (subst (asm) scan_kind_step) (simp add: p_def)
      next
        case False
        with le have i: "idx + 1 \<le> i" by simp
        have "\<not> (p < length s \<and> s ! p = DQUOTE)"
        proof
          assume "p < length s \<and> s ! p = DQUOTE"
          with less.prems(1) lt Some show False
            by (subst (asm) scan_kind_step) (simp add: p_def)
        qed
        with less.prems(1) lt Some have n: "scan_kind opn cls s (idx + 1) = None"
          by (subst (asm) scan_kind_step) (auto simp: p_def)
        from io(2) have "idx + 2 < length s" by (simp add: pattern_at_def)
        with io(1) have "length s - (idx + 1) < length s - k" by simp
        from less.hyps [OF this n less.prems(2) i] q show False by blast
      qed
    qed
  qed
qed

lemma unquote_reaches: "unquote_step\<^sup>*\<^sup>* s (unquoteJsonStringValues s)"
proof (induction s rule: unquoteJsonStringValues.induct)
  case (1 s)
  show ?case
  proof (cases "scan_kind LBRACE RBRACE s 0")
    case (Some r)
    then obtain i c where q: "quoted_value_at LBRACE RBRACE s i c"
      and r: "r = delete_at (i + 1) (delete_at (c + 1) s)"
      using scan_kind_sound [of LBRACE RBRACE s 0 r] by auto
    from q have "unquote_step s (delete_at (i + 1) (delete_at (c + 1) s))"
      by (rule unquote_step.braces)
    then have "unquote_step s r" by (simp only: r)
    moreover have "unquote_step\<^sup>*\<^sup>* r (unquoteJsonStringValues r)"
      using Some by (rule "1.IH"(2))
    moreover have "unquoteJsonStringValues s = unquoteJsonStringValues r"
      using Some by (subst unquoteJsonStringValues.simps) simp
    ultimately show ?thesis by simp
  next
    case None
    show ?thesis
    proof (cases "scan_kind LBRACK RBRACK s 0")
      case (Some r)
      then obtain i c where q: "quoted_value_at LBRACK RBRACK s i c"
        and r: "r = delete_at (i + 1) (delete_at (c + 1) s)"
        using scan_kind_sound [of LBRACK RBRACK s 0 r] by auto
      from q have "unquote_step s (delete_at (i + 1) (delete_at (c + 1) s))"
        by (rule unquote_step.brackets)
      then have "unquote_step s r" by (simp only: r)
      moreover have "unquote_step\<^sup>*\<^sup>* r (unquoteJsonStringValues r)"
        using None Some by (rule "1.IH"(1))
      moreover have "unquoteJsonStringValues s = unquoteJsonStringValues r"
        using None Some by (subst unquoteJsonStringValues.simps) simp
      ultimately show ?thesis by simp
    next
      case n2: None
      with None have "unquoteJsonStringValues s = s"
        by (subst unquoteJsonStringValues.simps) simp
      then show ?thesis by simp
    qed
  qed
qed

lemma unquote_final:
  "scan_kind LBRACE RBRACE (unquoteJsonStringValues s) 0 = None \<and>
   scan_kind LBRACK RBRACK (unquoteJsonStringValues s) 0 = None"
proof (induction s rule: unquoteJsonStringValues.induct)
  case (1 s)
  show ?case
  proof (cases "scan_kind LBRACE RBRACE s 0")
    case (Some r)
    moreover have "unquoteJsonStringValues s = unquoteJsonStringValues r"
      using Some by (subst unquoteJsonStringValues.simps) simp
    ultimately show ?thesis using "1.IH"(2) [OF Some] by simp
  next
    case None
    show ?thesis
    proof (cases "scan_kind LBRACK RBRACK s 0")
      case (Some r)
      moreover have "unquoteJsonStringValues s = unquoteJsonStringValues r"
        using None Some by (subst unquoteJsonStringValues.simps) simp
      ultimately show ?thesis using "1.IH"(1) [OF None Some] by simp
    next
      case n2: None
      with None have "unquoteJsonStringValues s = s"
        by (subst unquoteJsonStringValues.simps) simp
      with None n2 show ?thesis by simp
    qed
  qed
qed

lemma unquote_no_step: "\<not> unquote_step (unquoteJsonStringValues s) r"
proof
  assume "unquote_step (unquoteJsonStringValues s) r"
  then show False
  proof (cases rule: unquote_step.cases)
    case (braces i c)
    moreover have "\<not> quoted_value_at LBRACE RBRACE (unquoteJsonStringValues s) i c"
      using unquote_final [of s] by (intro scan_kind_complete [of _ _ _ 0]) simp_all
    ultimately show False by blast
  next
    case (brackets i c)
    moreover have "\<not> quoted_value_at LBRACK RBRACK (unquoteJsonStringValues s) i c"
      using unquote_final [of s] by (intro scan_kind_complete [of _ _ _ 0]) simp_all
    ultimately show False by blast
  qed
qed


lemma unquote_step_shape:
  assumes "unquote_step s r"
  shows "\<exists>q e. q < e \<and> e < length s \<and> s ! q = DQUOTE \<and> s ! e = DQUOTE \<and>
               r = delete_at q (delete_at e s) \<and> length r + 2 = length s"
proof -
  have *: "\<exists>q e. q < e \<and> e < length s \<and> s ! q = DQUOTE \<and> s ! e = DQUOTE \<and>
               delete_at (i + 1) (delete_at (c + 1) s) = delete_at q (delete_at e s) \<and>
               length (delete_at (i + 1) (delete_at (c + 1) s)) + 2 = length s"
    if q: "quoted_value_at opn cls s i c" for opn cls i c
  proof -
    from q have m: "matching_close opn cls s (i + 2) c" and
      d: "s ! (i + 1) = DQUOTE" "c + 1 < length s" "s ! (c + 1) = DQUOTE"
      by (simp_all add: quoted_value_at_def)
    from matching_closeD(1) [OF m] have lt: "i + 1 < c + 1" by simp
    from lt d(2) have "length (delete_at (i + 1) (delete_at (c + 1) s)) + 2 = length s"
      by (rule length_delete_two)
    with lt d show ?thesis by blast
  qed
  from assms show ?thesis
    by (cases rule: unquote_step.cases) (use * in blast)+
qed

text \<open>
  Claim C3.  The result of \<^verbatim>\<open>unquoteJsonStringValues\<close> is reached from the input by
  removals, each of which deletes exactly the two quotes around a bracket-balanced
  \<^verbatim>\<open>{...}\<close> or \<^verbatim>\<open>[...]\<close> that follows a colon and whose matching closing bracket is
  followed by a quote, and in the result no such text is left.  The text
  \<^verbatim>\<open>{"Content":"{"key":"val"}"}\<close> becomes \<^verbatim>\<open>{"Content":{"key":"val"}}\<close>, which parses
  to the nested object, and two levels of nesting are resolved in one call.
\<close>

theorem unquoteJsonStringValues_removes_quote_pairs:
  \<open>unquote_step\<^sup>*\<^sup>* s (unquoteJsonStringValues s) \<and>
   \<not> unquote_step (unquoteJsonStringValues s) r \<and>
   (unquote_step s r' \<longrightarrow>
      (\<exists>q e. q < e \<and> e < length s \<and> s ! q = DQUOTE \<and> s ! e = DQUOTE \<and>
             r' = delete_at q (delete_at e s) \<and> length r' + 2 = length s)) \<and>
   unquoteJsonStringValues (js ''{"Content":"{"key":"val"}"}'') = js ''{"Content":{"key":"val"}}'' \<and>
   JSON_parse (unquoteJsonStringValues (js ''{"Content":"{"key":"val"}"}'')) =
     Some (JObject [(js ''Content'', JObject [(js ''key'', JString (js ''val''))])]) \<and>
   unquoteJsonStringValues (js ''{"a":"{"b":"{"c":1}"}"}'') = js ''{"a":{"b":{"c":1}}}''\<close>
proof (intro conjI impI)
  show "unquote_step\<^sup>*\<^sup>* s (unquoteJsonStringValues s)" by (rule unquote_reaches)
  show "\<not> unquote_step (unquoteJsonStringValues s) r" by (rule unquote_no_step)
  show "\<exists>q e. q < e \<and> e < length s \<and> s ! q = DQUOTE \<and> s ! e = DQUOTE \<and>
             r' = delete_at q (delete_at e s) \<and> length r' + 2 = length s"
    if "unquote_step s r'"
    using that by (rule unquote_step_shape)
  show \<open>unquoteJsonStringValues (js ''{"Content":"{"key":"val"}"}'') = js ''{"Content":{"key":"val"}}''\<close>
    by code_simp
  show \<open>JSON_parse (unquoteJsonStringValues (js ''{"Content":"{"key":"val"}"}'')) =
     Some (JObject [(js ''Content'', JObject [(js ''key'', JString (js ''val''))])])\<close>
    by code_simp
  show \<open>unquoteJsonStringValues (js ''{"a":"{"b":"{"c":1}"}"}'') = js ''{"a":{"b":{"c":1}}}''\<close>
    by code_simp
qed

theorem unquoteJsonStringValues_removes_quote_pairs_witness:
  \<open>quoted_value_at LBRACE RBRACE (js ''{"a":"{"b":1}"}'') 4 12 \<and>
   unquote_step (js ''{"a":"{"b":1}"}'') (js ''{"a":{"b":1}}'') \<and>
   (\<exists>q e. q < e \<and> e < length (js ''{"a":"{"b":1}"}'') \<and>
          js ''{"a":"{"b":1}"}'' ! q = DQUOTE \<and> js ''{"a":"{"b":1}"}'' ! e = DQUOTE \<and>
          js ''{"a":{"b":1}}'' = delete_at q (delete_at e (js ''{"a":"{"b":1}"}'')) \<and>
          length (js ''{"a":{"b":1}}'') + 2 = length (js ''{"a":"{"b":1}"}'')) \<and>
   unquote_step\<^sup>*\<^sup>* (js ''{"a":"{"b":1}"}'') (unquoteJsonStringValues (js ''{"a":"{"b":1}"}'')) \<and>
   unquoteJsonStringValues (js ''{"a":"{"b":1}"}'') = js ''{"a":{"b":1}}'' \<and>
   \<not> unquote_step (js ''{"a":{"b":1}}'') (js ''{"a":"{"b":1}"}'')\<close>
proof -
  let ?s = \<open>js ''{"a":"{"b":1}"}''\<close>
  let ?r = \<open>js ''{"a":{"b":1}}''\<close>
  have q: "quoted_value_at LBRACE RBRACE ?s 4 12" by code_simp
  have d: "delete_at (4 + 1) (delete_at (12 + 1) ?s) = ?r" by code_simp
  have u: "unquoteJsonStringValues ?s = ?r" by code_simp
  from unquote_step.braces [OF q] have st: "unquote_step ?s ?r" by (simp only: d)
  note T = unquoteJsonStringValues_removes_quote_pairs [of ?s ?s ?r]
  from T st have 3: \<open>\<exists>q e. q < e \<and> e < length ?s \<and> ?s ! q = DQUOTE \<and> ?s ! e = DQUOTE \<and>
          ?r = delete_at q (delete_at e ?s) \<and> length ?r + 2 = length ?s\<close>
    by blast
  from T have 4: "unquote_step\<^sup>*\<^sup>* ?s (unquoteJsonStringValues ?s)"
    and 5: "\<not> unquote_step (unquoteJsonStringValues ?s) ?s"
    by blast+
  from q st 3 4 u 5 [unfolded u] show ?thesis by blast
qed


section \<open>Properties of the slash strippers\<close>

lemma takeWhile_append_stop:
  "\<forall>x \<in> set xs. P x \<Longrightarrow> \<not> P y \<Longrightarrow> takeWhile P (xs @ y # ys) = xs"
  by (induction xs) simp_all

lemma dropWhile_append_stop:
  "\<forall>x \<in> set xs. P x \<Longrightarrow> \<not> P y \<Longrightarrow> dropWhile P (xs @ y # ys) = y # ys"
  by (induction xs) simp_all

lemma first_occurrence_unique:
  "xs @ [a] = ys @ a # zs \<Longrightarrow> a \<notin> set xs \<Longrightarrow> a \<notin> set ys \<Longrightarrow> xs = ys \<and> zs = []"
proof (induction xs arbitrary: ys)
  case Nil
  then show ?case by (cases ys) auto
next
  case (Cons x xs)
  then show ?case by (cases ys) auto
qed

lemma strip_trailing_append:
  assumes "\<forall>x \<in> set ys. P x" and "xs = [] \<or> \<not> P (last xs)"
  shows "strip_trailing P (xs @ ys) = xs"
proof -
  have "dropWhile P (rev ys @ rev xs) = dropWhile P (rev xs)"
    using assms(1) by (simp add: dropWhile_append)
  moreover have "dropWhile P (rev xs) = rev xs"
    using assms(2) by (cases xs rule: rev_cases) auto
  ultimately show ?thesis by (simp add: strip_trailing_def)
qed























lemma m_trailing_nonquote: "c \<noteq> DQUOTE \<Longrightarrow> m_trailing prev (c # cs) = None"
  by (simp add: m_trailing_def)

lemma m_trailing_last_quote: "m_trailing prev [DQUOTE] = None"
  by (simp add: m_trailing_def)

lemma gsub_trailing_no_quote:
  "DQUOTE \<notin> set xs \<Longrightarrow> gsub m_trailing prev (xs @ [DQUOTE]) = xs @ [DQUOTE]"
  by (induction xs arbitrary: prev) (simp_all add: m_trailing_nonquote m_trailing_last_quote)

lemma m_trailing_match:
  assumes "SLASH \<notin> set c" and "DQUOTE \<notin> set c"
  shows "m_trailing prev (DQUOTE # c @ replicate (Suc k) SLASH @ DQUOTE # rest) =
           Some (DQUOTE # c @ [DQUOTE], rest)"
proof -
  let ?P = "\<lambda>x. x \<noteq> DQUOTE \<and> x \<noteq> SLASH"
  let ?S = "\<lambda>x. x = SLASH"
  have cP: "\<forall>x \<in> set c. ?P x" using assms by auto
  have eq: "c @ replicate (Suc k) SLASH @ DQUOTE # rest = c @ SLASH # (replicate k SLASH @ DQUOTE # rest)"
    by simp
  have 1: "takeWhile ?P (c @ replicate (Suc k) SLASH @ DQUOTE # rest) = c"
    unfolding eq using cP by (intro takeWhile_append_stop) simp_all
  have 2: "dropWhile ?P (c @ replicate (Suc k) SLASH @ DQUOTE # rest) =
             replicate (Suc k) SLASH @ DQUOTE # rest"
    unfolding eq using cP dropWhile_append_stop [of c ?P SLASH] by simp
  have 3: "takeWhile ?S (replicate (Suc k) SLASH @ DQUOTE # rest) = replicate (Suc k) SLASH"
    by (intro takeWhile_append_stop) simp_all
  have 4: "dropWhile ?S (replicate (Suc k) SLASH @ DQUOTE # rest) = DQUOTE # rest"
    by (intro dropWhile_append_stop) simp_all
  show ?thesis
    unfolding m_trailing_def by (simp only: list.case if_True Let_def 1 2 3 4) simp
qed

lemma m_trailing_shape:
  assumes "m_trailing prev s = Some (rep, rest)"
  shows "\<exists>c k. s = DQUOTE # c @ replicate (Suc k) SLASH @ DQUOTE # rest \<and>
               SLASH \<notin> set c \<and> DQUOTE \<notin> set c \<and> rep = DQUOTE # c @ [DQUOTE]"
proof -
  let ?P = "\<lambda>x. x \<noteq> DQUOTE \<and> x \<noteq> SLASH"
  let ?S = "\<lambda>x. x = SLASH"
  from assms obtain q r where s0: "s = q # r"
    by (cases s) (simp_all add: m_trailing_def)
  with assms have q: "q = DQUOTE"
    by (simp add: m_trailing_def split: if_splits)
  define c where "c = takeWhile ?P r"
  define r1 where "r1 = dropWhile ?P r"
  define sl where "sl = takeWhile ?S r1"
  define r2 where "r2 = dropWhile ?S r1"
  have m: "m_trailing prev s =
      (if sl \<noteq> [] then
         (case r2 of [] \<Rightarrow> None
          | q' # r3 \<Rightarrow> if q' = DQUOTE then Some (DQUOTE # c @ [DQUOTE], r3) else None)
       else None)"
    unfolding s0 q m_trailing_def c_def r1_def sl_def r2_def
    by (simp only: list.case Let_def simp_thms if_True)
  from assms m have ne: "sl \<noteq> []" by (simp split: if_splits)
  with assms m obtain q' r3 where r2: "r2 = q' # r3"
    by (cases r2) simp_all
  with assms m ne have q': "q' = DQUOTE" and rep: "rep = DQUOTE # c @ [DQUOTE]" and r3: "r3 = rest"
    by (simp_all split: if_splits)
  have rc: "r = c @ r1" by (simp add: c_def r1_def)
  have r1: "r1 = sl @ r2" by (simp add: sl_def r2_def)
  have "\<forall>x \<in> set sl. x = SLASH"
    unfolding sl_def by (auto dest: set_takeWhileD)
  then have sl: "sl = replicate (length sl) SLASH"
    by (simp add: replicate_length_same)
  from ne obtain k where k: "length sl = Suc k" by (cases sl) auto
  have cP: "\<forall>x \<in> set c. ?P x"
    unfolding c_def by (auto dest: set_takeWhileD)
  have "s = DQUOTE # c @ sl @ DQUOTE # rest"
    by (simp only: s0 q rc r1 r2 q' r3)
  with sl k have "s = DQUOTE # c @ replicate (Suc k) SLASH @ DQUOTE # rest"
    by simp
  with cP rep show ?thesis by blast
qed


lemma strip_trailing_decomp:
  "\<exists>k. xs = strip_trailing (\<lambda>x. x = a) xs @ replicate k a \<and> (xs \<noteq> [] \<and> last xs = a \<longrightarrow> 0 < k)"
proof -
  let ?S = "\<lambda>x. x = a"
  define t where "t = takeWhile ?S (rev xs)"
  have "\<forall>x \<in> set t. x = a" unfolding t_def by (auto dest: set_takeWhileD)
  then have t: "t = replicate (length t) a" by (simp add: replicate_length_same)
  have "rev xs = t @ dropWhile ?S (rev xs)" by (simp add: t_def)
  then have "xs = rev (dropWhile ?S (rev xs)) @ rev t"
    by (metis rev_append rev_rev_ident)
  with t have 1: "xs = strip_trailing ?S xs @ replicate (length t) a"
    by (metis rev_replicate strip_trailing_def)
  have "xs \<noteq> [] \<and> last xs = a \<longrightarrow> 0 < length t"
  proof
    assume "xs \<noteq> [] \<and> last xs = a"
    then obtain ys where "xs = ys @ [a]" by (metis append_butlast_last_id)
    then show "0 < length t" by (simp add: t_def)
  qed
  with 1 show ?thesis by blast
qed

lemma strip_trailing_slash_value:
  assumes "DQUOTE \<notin> set body"
  shows "strip_trailing_slash (DQUOTE # body @ [DQUOTE]) =
           (if body \<noteq> [] \<and> last body = SLASH \<and>
               SLASH \<notin> set (strip_trailing (\<lambda>x. x = SLASH) body)
            then DQUOTE # strip_trailing (\<lambda>x. x = SLASH) body @ [DQUOTE]
            else DQUOTE # body @ [DQUOTE])"
proof (cases "m_trailing None (DQUOTE # body @ [DQUOTE])")
  case None
  have un: "strip_trailing_slash (DQUOTE # body @ [DQUOTE]) = DQUOTE # body @ [DQUOTE]"
    using None assms by (simp add: strip_trailing_slash_def gsub_trailing_no_quote)
  have nc: "\<not> (body \<noteq> [] \<and> last body = SLASH \<and> SLASH \<notin> set (strip_trailing (\<lambda>x. x = SLASH) body))"
  proof
    assume a: "body \<noteq> [] \<and> last body = SLASH \<and> SLASH \<notin> set (strip_trailing (\<lambda>x. x = SLASH) body)"
    define c where "c = strip_trailing (\<lambda>x. x = SLASH) body"
    from a obtain k where b: "body = c @ replicate k SLASH" and k: "0 < k"
      using strip_trailing_decomp [of body SLASH] by (auto simp: c_def)
    from k obtain k' where k': "k = Suc k'" by (cases k) auto
    have "DQUOTE \<notin> set c" using assms b by auto
    moreover have "SLASH \<notin> set c" using a by (simp add: c_def)
    ultimately have "m_trailing None (DQUOTE # c @ replicate (Suc k') SLASH @ DQUOTE # []) =
        Some (DQUOTE # c @ [DQUOTE], [])"
      by (intro m_trailing_match)
    with None b k' show False by simp
  qed
  show ?thesis
    unfolding un by (simp only: nc if_False)
next
  case (Some pr)
  obtain rep rest where pr: "pr = (rep, rest)" by (cases pr)
  from Some pr obtain c k where
    s: "DQUOTE # body @ [DQUOTE] = DQUOTE # c @ replicate (Suc k) SLASH @ DQUOTE # rest" and
    c1: "SLASH \<notin> set c" and c2: "DQUOTE \<notin> set c" and rep: "rep = DQUOTE # c @ [DQUOTE]"
    using m_trailing_shape [of None "DQUOTE # body @ [DQUOTE]" rep rest] by auto
  from s have e: "body @ [DQUOTE] = (c @ replicate (Suc k) SLASH) @ DQUOTE # rest" by simp
  have n: "DQUOTE \<notin> set (c @ replicate (Suc k) SLASH)" using c2 by simp
  from first_occurrence_unique [OF e assms n]
  have b: "body = c @ replicate (Suc k) SLASH" and rest: "rest = []"
    by simp_all
  have "c = [] \<or> \<not> (last c = SLASH)" using c1 by (cases c rule: rev_cases) auto
  then have st: "strip_trailing (\<lambda>x. x = SLASH) body = c"
    unfolding b by (intro strip_trailing_append) auto
  have "strip_trailing_slash (DQUOTE # body @ [DQUOTE]) = DQUOTE # c @ [DQUOTE]"
    using Some pr rep rest by (simp add: strip_trailing_slash_def)
  moreover have "body \<noteq> [] \<and> last body = SLASH" using b by simp
  ultimately show ?thesis using st c1 by simp
qed


text \<open>
  Claim C7.  The trailing-slash rule leaves \<^verbatim>\<open>"https://example.com/"\<close> unchanged and
  turns \<^verbatim>\<open>"CommerceId/"\<close> into \<^verbatim>\<open>"CommerceId"\<close>.  For every quoted value without an
  inner quote, the run of slashes before the closing quote is removed exactly when
  the content before this run contains no slash, and otherwise the value is
  unchanged.  Every match of the expression is a quote, a content without quote and
  without slash, a run of slashes and a quote.
\<close>

theorem strip_trailing_slash_rule:
  \<open>strip_trailing_slash (js ''"https://example.com/"'') = js ''"https://example.com/"'' \<and>
   strip_trailing_slash (js ''"CommerceId/"'') = js ''"CommerceId"'' \<and>
   (DQUOTE \<notin> set body \<longrightarrow>
      strip_trailing_slash (DQUOTE # body @ [DQUOTE]) =
        (if body \<noteq> [] \<and> last body = SLASH \<and>
            SLASH \<notin> set (strip_trailing (\<lambda>x. x = SLASH) body)
         then DQUOTE # strip_trailing (\<lambda>x. x = SLASH) body @ [DQUOTE]
         else DQUOTE # body @ [DQUOTE])) \<and>
   (m_trailing prev s = Some (rep, rest) \<longrightarrow>
      (\<exists>c k. s = DQUOTE # c @ replicate (Suc k) SLASH @ DQUOTE # rest \<and>
             SLASH \<notin> set c \<and> DQUOTE \<notin> set c \<and> rep = DQUOTE # c @ [DQUOTE]))\<close>
proof (intro conjI impI)
  show \<open>strip_trailing_slash (js ''"https://example.com/"'') = js ''"https://example.com/"''\<close>
    by code_simp
  show \<open>strip_trailing_slash (js ''"CommerceId/"'') = js ''"CommerceId"''\<close>
    by code_simp
next
  assume "DQUOTE \<notin> set body"
  then show "strip_trailing_slash (DQUOTE # body @ [DQUOTE]) =
        (if body \<noteq> [] \<and> last body = SLASH \<and>
            SLASH \<notin> set (strip_trailing (\<lambda>x. x = SLASH) body)
         then DQUOTE # strip_trailing (\<lambda>x. x = SLASH) body @ [DQUOTE]
         else DQUOTE # body @ [DQUOTE])"
    by (rule strip_trailing_slash_value)
next
  assume "m_trailing prev s = Some (rep, rest)"
  then show "\<exists>c k. s = DQUOTE # c @ replicate (Suc k) SLASH @ DQUOTE # rest \<and>
             SLASH \<notin> set c \<and> DQUOTE \<notin> set c \<and> rep = DQUOTE # c @ [DQUOTE]"
    by (rule m_trailing_shape)
qed

theorem strip_trailing_slash_rule_witness:
  \<open>DQUOTE \<notin> set (js ''xxx//'') \<and>
   strip_trailing_slash (js ''"xxx//"'') = js ''"xxx"'' \<and>
   DQUOTE \<notin> set (js ''/some/path/'') \<and>
   strip_trailing_slash (js ''"/some/path/"'') = js ''"/some/path/"'' \<and>
   m_trailing None (js ''"id/",'') = Some (js ''"id"'', js '','') \<and>
   (\<exists>c k. js ''"id/",'' = DQUOTE # c @ replicate (Suc k) SLASH @ DQUOTE # js '','' \<and>
          SLASH \<notin> set c \<and> DQUOTE \<notin> set c \<and> js ''"id"'' = DQUOTE # c @ [DQUOTE])\<close>
proof -
  have a: \<open>DQUOTE \<notin> set (js ''xxx//'')\<close> by (simp add: js_def)
  have b: \<open>DQUOTE \<notin> set (js ''/some/path/'')\<close> by (simp add: js_def)
  have m: \<open>m_trailing None (js ''"id/",'') = Some (js ''"id"'', js '','')\<close> by code_simp
  have ea: \<open>(if js ''xxx//'' \<noteq> [] \<and> last (js ''xxx//'') = SLASH \<and>
            SLASH \<notin> set (strip_trailing (\<lambda>x. x = SLASH) (js ''xxx//''))
         then DQUOTE # strip_trailing (\<lambda>x. x = SLASH) (js ''xxx//'') @ [DQUOTE]
         else DQUOTE # js ''xxx//'' @ [DQUOTE]) = js ''"xxx"''\<close>
    by (simp add: js_def strip_trailing_def)
  have eb: \<open>(if js ''/some/path/'' \<noteq> [] \<and> last (js ''/some/path/'') = SLASH \<and>
            SLASH \<notin> set (strip_trailing (\<lambda>x. x = SLASH) (js ''/some/path/''))
         then DQUOTE # strip_trailing (\<lambda>x. x = SLASH) (js ''/some/path/'') @ [DQUOTE]
         else DQUOTE # js ''/some/path/'' @ [DQUOTE]) = js ''"/some/path/"''\<close>
    by (simp add: js_def strip_trailing_def)
  from strip_trailing_slash_rule [of \<open>js ''xxx//''\<close> None \<open>js ''"id/",''\<close> \<open>js ''"id"''\<close> \<open>js '',''\<close>] a m
  have 1: \<open>strip_trailing_slash (DQUOTE # js ''xxx//'' @ [DQUOTE]) =
        (if js ''xxx//'' \<noteq> [] \<and> last (js ''xxx//'') = SLASH \<and>
            SLASH \<notin> set (strip_trailing (\<lambda>x. x = SLASH) (js ''xxx//''))
         then DQUOTE # strip_trailing (\<lambda>x. x = SLASH) (js ''xxx//'') @ [DQUOTE]
         else DQUOTE # js ''xxx//'' @ [DQUOTE])\<close>
    and 3: \<open>\<exists>c k. js ''"id/",'' = DQUOTE # c @ replicate (Suc k) SLASH @ DQUOTE # js '','' \<and>
          SLASH \<notin> set c \<and> DQUOTE \<notin> set c \<and> js ''"id"'' = DQUOTE # c @ [DQUOTE]\<close>
    by blast+
  from strip_trailing_slash_rule [of \<open>js ''/some/path/''\<close>] b
  have 2: \<open>strip_trailing_slash (DQUOTE # js ''/some/path/'' @ [DQUOTE]) =
        (if js ''/some/path/'' \<noteq> [] \<and> last (js ''/some/path/'') = SLASH \<and>
            SLASH \<notin> set (strip_trailing (\<lambda>x. x = SLASH) (js ''/some/path/''))
         then DQUOTE # strip_trailing (\<lambda>x. x = SLASH) (js ''/some/path/'') @ [DQUOTE]
         else DQUOTE # js ''/some/path/'' @ [DQUOTE])\<close>
    by blast
  have x1: \<open>strip_trailing_slash (js ''"xxx//"'') = js ''"xxx"''\<close>
    using 1 [unfolded ea] by (simp add: js_def)
  have x2: \<open>strip_trailing_slash (js ''"/some/path/"'') = js ''"/some/path/"''\<close>
    using 2 [unfolded eb] by (simp add: js_def)
  from a b m x1 x2 3 show ?thesis by blast
qed


section \<open>Every match consumes a character\<close>

text \<open>
  The test \<open>length rest < length (c # cs)\<close> of \<open>gsub\<close> holds for every expression of
  the extension, so its last branch is never taken.
\<close>

lemma dropWhile_Cons_shorter: "dropWhile P s = q # r \<Longrightarrow> length r < length s"
proof -
  assume a: "dropWhile P s = q # r"
  have "length (dropWhile P s) \<le> length s" by (rule length_dropWhile_le')
  with a show ?thesis by simp
qed

lemma m_literal_consumes:
  "m_literal pat rep prev s = Some (r, rest) \<Longrightarrow> pat \<noteq> [] \<Longrightarrow> length rest < length s"
  using strip_prefix_length [of pat s rest]
  by (auto simp: m_literal_def split: option.splits)

lemma m_symmetric_consumes:
  assumes "m_symmetric prev s = Some (rep, rest)"
  shows "length rest < length s"
proof -
  from assms obtain q r q' where 1: "dropWhile is_slash s = q # r"
    and 2: "dropWhile (\<lambda>x. x \<noteq> DQUOTE) r = q' # rest"
    unfolding m_symmetric_def Let_def
    by (simp split: if_splits list.splits)
  from dropWhile_Cons_shorter [OF 1] dropWhile_Cons_shorter [OF 2] show ?thesis by simp
qed

lemma m_leading_consumes:
  assumes "m_leading cls prev s = Some (rep, rest)"
  shows "length rest < length s"
proof -
  from assms have ne: "takeWhile cls s \<noteq> []" and r: "rest = dropWhile cls s"
    by (auto simp: m_leading_def split: if_splits list.splits)
  have "length (takeWhile cls s) + length (dropWhile cls s) = length s"
    by (metis length_append takeWhile_dropWhile_id)
  with ne r show ?thesis by (cases "takeWhile cls s") auto
qed

lemma m_trailing_consumes:
  assumes "m_trailing prev s = Some (rep, rest)"
  shows "length rest < length s"
proof -
  from m_trailing_shape [OF assms] obtain c k where
    "s = DQUOTE # c @ replicate (Suc k) SLASH @ DQUOTE # rest" by blast
  then have "length s = length c + k + 3 + length rest" by simp
  then show ?thesis by simp
qed

lemma m_trailing_comma_consumes:
  assumes "m_trailing_comma prev s = Some (rep, rest)"
  shows "length rest < length s"
proof -
  from assms obtain k r b where s: "s = k # r" and d: "dropWhile is_js_space r = b # rest"
    unfolding m_trailing_comma_def
    by (simp split: if_splits list.splits)
  from dropWhile_Cons_shorter [OF d] s show ?thesis by simp
qed


section \<open>Properties of the multi-pass unescape loop\<close>

lemma gsub_literal_prev:
  "gsub (m_literal p r) prev s = gsub (m_literal p r) None s"
proof (induction "length s" arbitrary: s prev rule: less_induct)
  case less
  show ?case
  proof (cases s)
    case Nil
    then show ?thesis by simp
  next
    case (Cons c cs)
    have 1: "gsub (m_literal p r) q cs = gsub (m_literal p r) None cs" for q
      using less [of cs q] Cons by simp
    show ?thesis
    proof (cases "strip_prefix p (c # cs)")
      case None
      then show ?thesis
        using 1 [of "Some c"] Cons by (simp add: m_literal_def)
    next
      case (Some rest)
      show ?thesis
      proof (cases "length rest < length (c # cs)")
        case True
        have "gsub (m_literal p r) q rest = gsub (m_literal p r) None rest" for q
          using less [of rest q] True Cons by simp
        then have "gsub (m_literal p r) (last_consumed (c # cs) rest) rest =
                   gsub (m_literal p r) None rest"
          by blast
        with Some True Cons show ?thesis by (simp add: m_literal_def)
      next
        case False
        with Some show ?thesis
          using 1 [of "Some c"] Cons by (simp add: m_literal_def)
      qed
    qed
  qed
qed

lemma replace_all_Nil: "replace_all p r [] = []"
  by (simp add: replace_all_def)

lemma replace_all_hit: "replace_all [a, b] r (a # b # s) = r @ replace_all [a, b] r s"
  unfolding replace_all_def
  by (simp add: m_literal_def) (rule gsub_literal_prev)

lemma replace_all_skip1: "a \<noteq> c \<Longrightarrow> replace_all [a, b] r (c # s) = c # replace_all [a, b] r s"
  unfolding replace_all_def
  using gsub_literal_prev [of "[a, b]" r "Some c" s] by (simp add: m_literal_def)

lemma replace_all_skip2:
  "(case s of [] \<Rightarrow> True | x # _ \<Rightarrow> x \<noteq> b) \<Longrightarrow>
   replace_all [a, b] r (a # s) = a # replace_all [a, b] r s"
  unfolding replace_all_def
  using gsub_literal_prev [of "[a, b]" r "Some a" s]
  by (cases s) (simp_all add: m_literal_def)

lemma replace_all_plain:
  "a \<notin> set w \<Longrightarrow> replace_all [a, b] r (w @ t) = w @ replace_all [a, b] r t"
  by (induction w) (simp_all add: replace_all_skip1)


lemma unquote_run:
  "replace_all [BSLASH, DQUOTE] [DQUOTE] (replicate (Suc n) BSLASH @ DQUOTE # t) =
     replicate n BSLASH @ DQUOTE # replace_all [BSLASH, DQUOTE] [DQUOTE] t"
proof (induction n)
  case 0
  show ?case by (simp add: replace_all_hit)
next
  case (Suc n)
  have "replace_all [BSLASH, DQUOTE] [DQUOTE] (BSLASH # (replicate (Suc n) BSLASH @ DQUOTE # t)) =
        BSLASH # replace_all [BSLASH, DQUOTE] [DQUOTE] (replicate (Suc n) BSLASH @ DQUOTE # t)"
    by (rule replace_all_skip2) simp
  with Suc show ?case by simp
qed

lemma unslash_run:
  "replace_all [BSLASH, SLASH] [SLASH] (replicate n BSLASH @ DQUOTE # t) =
     replicate n BSLASH @ DQUOTE # replace_all [BSLASH, SLASH] [SLASH] t"
proof (induction n)
  case 0
  show ?case by (simp add: replace_all_skip1)
next
  case (Suc n)
  have "replace_all [BSLASH, SLASH] [SLASH] (BSLASH # (replicate n BSLASH @ DQUOTE # t)) =
        BSLASH # replace_all [BSLASH, SLASH] [SLASH] (replicate n BSLASH @ DQUOTE # t)"
    by (rule replace_all_skip2) (cases n; simp)
  with Suc show ?case by simp
qed

lemma halve_run:
  "replace_all [BSLASH, BSLASH] [BSLASH] (replicate n BSLASH @ DQUOTE # t) =
     replicate ((n + 1) div 2) BSLASH @ DQUOTE # replace_all [BSLASH, BSLASH] [BSLASH] t"
proof (induction n rule: induct_nat_012)
  case 0
  show ?case by (simp add: replace_all_skip1)
next
  case 1
  have "replace_all [BSLASH, BSLASH] [BSLASH] (BSLASH # (DQUOTE # t)) =
        BSLASH # replace_all [BSLASH, BSLASH] [BSLASH] (DQUOTE # t)"
    by (rule replace_all_skip2) simp
  then show ?case by (simp add: replace_all_skip1)
next
  case (ge2 n)
  then show ?case by (simp add: replace_all_hit)
qed

lemma unescape_pass_wrapped:
  assumes "BSLASH \<notin> set w"
  shows "unescape_pass (wrapped n w) = wrapped (n div 2) w"
proof -
  let ?R1 = "replace_all [BSLASH, DQUOTE] [DQUOTE]"
  let ?R2 = "replace_all [BSLASH, SLASH] [SLASH]"
  let ?R3 = "replace_all [BSLASH, BSLASH] [BSLASH]"
  have r1: "?R1 (wrapped n w) = wrapped (n - 1) w"
  proof (cases n)
    case 0
    have "?R1 (DQUOTE # w @ [DQUOTE]) = DQUOTE # w @ ?R1 [DQUOTE]"
      using assms by (simp add: replace_all_skip1 replace_all_plain)
    then show ?thesis using 0 by (simp add: wrapped_def replace_all_skip1 replace_all_Nil)
  next
    case (Suc m)
    have "?R1 (wrapped (Suc m) w) =
          replicate m BSLASH @ DQUOTE # ?R1 (w @ replicate (Suc m) BSLASH @ [DQUOTE])"
      unfolding wrapped_def by (rule unquote_run)
    also have "?R1 (w @ replicate (Suc m) BSLASH @ [DQUOTE]) =
               w @ ?R1 (replicate (Suc m) BSLASH @ DQUOTE # [])"
      using assms by (simp add: replace_all_plain)
    also have "?R1 (replicate (Suc m) BSLASH @ DQUOTE # []) = replicate m BSLASH @ DQUOTE # ?R1 []"
      by (rule unquote_run)
    finally show ?thesis using Suc by (simp add: wrapped_def replace_all_Nil)
  qed
  have r2: "?R2 (wrapped m w) = wrapped m w" for m
  proof -
    have "?R2 (wrapped m w) = replicate m BSLASH @ DQUOTE # ?R2 (w @ replicate m BSLASH @ [DQUOTE])"
      unfolding wrapped_def by (rule unslash_run)
    also have "?R2 (w @ replicate m BSLASH @ [DQUOTE]) = w @ ?R2 (replicate m BSLASH @ DQUOTE # [])"
      using assms by (simp add: replace_all_plain)
    also have "?R2 (replicate m BSLASH @ DQUOTE # []) = replicate m BSLASH @ DQUOTE # ?R2 []"
      by (rule unslash_run)
    finally show ?thesis by (simp add: wrapped_def replace_all_Nil)
  qed
  have r3: "?R3 (wrapped m w) = wrapped ((m + 1) div 2) w" for m
  proof -
    have "?R3 (wrapped m w) =
          replicate ((m + 1) div 2) BSLASH @ DQUOTE # ?R3 (w @ replicate m BSLASH @ [DQUOTE])"
      unfolding wrapped_def by (rule halve_run)
    also have "?R3 (w @ replicate m BSLASH @ [DQUOTE]) = w @ ?R3 (replicate m BSLASH @ DQUOTE # [])"
      using assms by (simp add: replace_all_plain)
    also have "?R3 (replicate m BSLASH @ DQUOTE # []) =
               replicate ((m + 1) div 2) BSLASH @ DQUOTE # ?R3 []"
      by (rule halve_run)
    finally show ?thesis by (simp add: wrapped_def replace_all_Nil)
  qed
  have "unescape_pass (wrapped n w) = wrapped ((n - 1 + 1) div 2) w"
    by (simp only: unescape_pass_def r1 r2 r3)
  moreover have "(n - 1 + 1) div 2 = n div 2" by (cases n) simp_all
  ultimately show ?thesis by simp
qed

lemma wrapped_inj: "wrapped m w = wrapped n w \<Longrightarrow> m = n"
proof -
  assume "wrapped m w = wrapped n w"
  then have "length (wrapped m w) = length (wrapped n w)" by simp
  then show "m = n" by (simp add: wrapped_def)
qed

lemma unescape_loop_wrapped:
  "n < 2 ^ (5 - k) \<Longrightarrow> k \<le> 5 \<Longrightarrow> prev \<noteq> wrapped n w \<or> n = 0 \<Longrightarrow> BSLASH \<notin> set w \<Longrightarrow>
   fst (unescape_loop prev (wrapped n w) k) = wrapped 0 w"
proof (induction n arbitrary: prev k rule: less_induct)
  case (less n)
  show ?case
  proof (cases "n = 0")
    case True
    have p: "unescape_pass (wrapped 0 w) = wrapped 0 w"
      using less.prems(4) unescape_pass_wrapped [of w 0] by simp
    show ?thesis
    proof (cases "prev \<noteq> wrapped 0 w \<and> k < 5")
      case c: True
      then have "unescape_loop prev (wrapped 0 w) k = unescape_loop (wrapped 0 w) (wrapped 0 w) (k + 1)"
        by (subst unescape_loop.simps) (simp add: p)
      also have "\<dots> = (wrapped 0 w, k + 1)"
        by (subst unescape_loop.simps) simp
      finally show ?thesis using True by simp
    next
      case False
      then have "unescape_loop prev (wrapped 0 w) k = (wrapped 0 w, k)"
        by (subst unescape_loop.simps) auto
      then show ?thesis using True by simp
    qed
  next
    case False
    with less.prems have k: "k < 5"
      by (cases "k = 5") auto
    from False less.prems(3) have ne: "prev \<noteq> wrapped n w" by simp
    have p: "unescape_pass (wrapped n w) = wrapped (n div 2) w"
      using less.prems(4) by (rule unescape_pass_wrapped)
    have step: "unescape_loop prev (wrapped n w) k =
                unescape_loop (wrapped n w) (wrapped (n div 2) w) (k + 1)"
      using ne k by (subst unescape_loop.simps) (simp add: p)
    have "2 ^ (5 - k) = 2 * (2::nat) ^ (5 - (k + 1))"
      using k by (metis Suc_diff_Suc Suc_eq_plus1 diff_Suc_Suc power_Suc)
    with less.prems(1) have b: "n div 2 < 2 ^ (5 - (k + 1))" by simp
    have "wrapped n w \<noteq> wrapped (n div 2) w"
      using False wrapped_inj [of n w "n div 2"] by auto
    then have "fst (unescape_loop (wrapped n w) (wrapped (n div 2) w) (k + 1)) = wrapped 0 w"
      using False k b less.prems(4) by (intro less.IH) simp_all
    with step show ?thesis by simp
  qed
qed


lemma unescape_loop_step:
  "prev \<noteq> r \<and> k < 5 \<Longrightarrow>
   unescape_loop prev r k = unescape_loop r (unescape_pass r) (k + 1)"
  by (subst unescape_loop.simps) simp

lemma unescape_loop_stop:
  assumes "\<not> (prev \<noteq> r \<and> k < 5)"
  shows "unescape_loop prev r k = (r, k)"
  by (subst unescape_loop.simps) (rule if_not_P [OF assms])

lemma unescape_loop_count:
  "k \<le> snd (unescape_loop prev r k) \<and> snd (unescape_loop prev r k) \<le> max k 5"
proof (induction prev r k rule: unescape_loop.induct)
  case (1 prev r k)
  show ?case
  proof (cases "prev \<noteq> r \<and> k < 5")
    case True
    with 1 show ?thesis by (simp add: unescape_loop_step)
  next
    case False
    then show ?thesis by (simp add: unescape_loop_stop)
  qed
qed

lemma unescape_loop_funpow:
  "fst (unescape_loop prev r k) = (unescape_pass ^^ (snd (unescape_loop prev r k) - k)) r"
proof (induction prev r k rule: unescape_loop.induct)
  case (1 prev r k)
  show ?case
  proof (cases "prev \<noteq> r \<and> k < 5")
    case True
    define n where "n = snd (unescape_loop r (unescape_pass r) (k + 1))"
    have ge: "k + 1 \<le> n" unfolding n_def using unescape_loop_count by blast
    then have "n - k = Suc (n - (k + 1))" by simp
    then have "(unescape_pass ^^ (n - k)) r = (unescape_pass ^^ (n - (k + 1))) (unescape_pass r)"
      by (simp add: funpow_swap1)
    with 1 True show ?thesis by (simp add: unescape_loop_step n_def)
  next
    case False
    then show ?thesis by (simp add: unescape_loop_stop)
  qed
qed

lemma unescape_loop_more:
  "k < snd (unescape_loop prev r k) \<Longrightarrow> prev \<noteq> r \<and> k < 5"
  by (rule ccontr) (simp add: unescape_loop_stop)

lemma unescape_loop_last:
  "snd (unescape_loop prev r k) < 5 \<Longrightarrow>
   (if snd (unescape_loop prev r k) = k then prev = r
    else (unescape_pass ^^ (snd (unescape_loop prev r k) - k)) r =
         (unescape_pass ^^ (snd (unescape_loop prev r k) - k - 1)) r)"
proof (induction prev r k rule: unescape_loop.induct)
  case (1 prev r k)
  show ?case
  proof (cases "prev \<noteq> r \<and> k < 5")
    case False
    with "1.prems" show ?thesis by (auto simp: unescape_loop_stop)
  next
    case True
    define n where "n = snd (unescape_loop r (unescape_pass r) (k + 1))"
    have eq: "snd (unescape_loop prev r k) = n"
      using True by (simp add: unescape_loop_step n_def)
    have ge: "k + 1 \<le> n" unfolding n_def using unescape_loop_count by blast
    from "1.prems" eq have lt: "n < 5" by simp
    from lt have lt': "snd (unescape_loop r (unescape_pass r) (k + 1)) < 5"
      by (simp only: n_def)
    note ih = "1.IH" [OF True lt', folded n_def]
    have "(unescape_pass ^^ (n - k)) r = (unescape_pass ^^ (n - k - 1)) r"
    proof (cases "n = k + 1")
      case True
      with ih show ?thesis by simp
    next
      case False
      define m where "m = n - (k + 2)"
      have m: "n = k + 2 + m" using False ge by (simp add: m_def)
      from False ih have "(unescape_pass ^^ (n - (k + 1))) (unescape_pass r) =
            (unescape_pass ^^ (n - (k + 1) - 1)) (unescape_pass r)"
        by (simp only: if_False)
      then have "(unescape_pass ^^ Suc m) (unescape_pass r) = (unescape_pass ^^ m) (unescape_pass r)"
        by (simp add: m)
      then show ?thesis
        by (simp add: m funpow_swap1)
    qed
    with ge show ?thesis unfolding eq by simp
  qed
qed

lemma unescape_loop_changes:
  "j + 1 < snd (unescape_loop prev r k) - k \<Longrightarrow>
   (unescape_pass ^^ (j + 1)) r \<noteq> (unescape_pass ^^ j) r"
proof (induction prev r k arbitrary: j rule: unescape_loop.induct)
  case (1 prev r k)
  show ?case
  proof (cases "prev \<noteq> r \<and> k < 5")
    case False
    with "1.prems" show ?thesis by (simp add: unescape_loop_stop)
  next
    case True
    define n where "n = snd (unescape_loop r (unescape_pass r) (k + 1))"
    have eq: "snd (unescape_loop prev r k) = n"
      using True by (simp add: unescape_loop_step n_def)
    from "1.prems" eq have j: "j + 1 < n - k" by simp
    show ?thesis
    proof (cases j)
      case 0
      from j have "k + 1 < n" by simp
      then have "r \<noteq> unescape_pass r"
        unfolding n_def using unescape_loop_more by blast
      with 0 show ?thesis by auto
    next
      case (Suc i)
      with j have "i + 1 < n - (k + 1)" by simp
      then have "(unescape_pass ^^ (i + 1)) (unescape_pass r) \<noteq> (unescape_pass ^^ i) (unescape_pass r)"
        unfolding n_def by (rule "1.IH" [OF True])
      then show ?thesis using Suc by (simp add: funpow_swap1)
    qed
  qed
qed

lemma unescape_pass_Nil: "unescape_pass [] = []"
  by (simp add: unescape_pass_def replace_all_Nil)

text \<open>
  Claim C5.  Started as in \<^verbatim>\<open>grafanaDeepClean\<close> (\<^verbatim>\<open>prev = ''\<close>, no iteration done), the
  unescape loop runs at most 5 iterations and returns the string after that many
  passes; when it ran fewer than 5, its last pass changed nothing, and every pass
  before the last one changed the string.  A pass replaces \<^verbatim>\<open>\"\<close> by \<^verbatim>\<open>"\<close>, then
  \<^verbatim>\<open>\/\<close> by \<^verbatim>\<open>/\<close>, then \<^verbatim>\<open>\\\<close> by \<^verbatim>\<open>\\<close>, in this order (on \<^verbatim>\<open>\\"\<close> the order
  is visible: the result is \<^verbatim>\<open>\"\<close>).  A text without backslash that has up to 31
  backslashes and a quote on each side is resolved to the plainly quoted text
  within the 5 iterations.
\<close>

theorem unescape_loop_bounded:
  "snd (unescape_loop [] s 0) \<le> 5 \<and>
   fst (unescape_loop [] s 0) = (unescape_pass ^^ snd (unescape_loop [] s 0)) s \<and>
   (snd (unescape_loop [] s 0) < 5 \<longrightarrow>
      unescape_pass (fst (unescape_loop [] s 0)) = fst (unescape_loop [] s 0)) \<and>
   (Suc j < snd (unescape_loop [] s 0) \<longrightarrow>
      (unescape_pass ^^ Suc j) s \<noteq> (unescape_pass ^^ j) s) \<and>
   unescape_pass s =
     replace_all [BSLASH, BSLASH] [BSLASH]
       (replace_all [BSLASH, SLASH] [SLASH] (replace_all [BSLASH, DQUOTE] [DQUOTE] s)) \<and>
   unescape_pass [BSLASH, BSLASH, DQUOTE] = [BSLASH, DQUOTE] \<and>
   (n < 32 \<and> BSLASH \<notin> set w \<longrightarrow>
      fst (unescape_loop [] (replicate n BSLASH @ DQUOTE # w @ replicate n BSLASH @ [DQUOTE]) 0) =
        DQUOTE # w @ [DQUOTE])"
proof (intro conjI impI)
  define m where "m = snd (unescape_loop [] s 0)"
  show "snd (unescape_loop [] s 0) \<le> 5"
    using unescape_loop_count [of 0 "[]" s] by simp
  show f: "fst (unescape_loop [] s 0) = (unescape_pass ^^ snd (unescape_loop [] s 0)) s"
    using unescape_loop_funpow [of "[]" s 0] by simp
  show "unescape_pass (fst (unescape_loop [] s 0)) = fst (unescape_loop [] s 0)"
    if lt: "snd (unescape_loop [] s 0) < 5"
  proof (cases "m = 0")
    case True
    with unescape_loop_last [OF lt] have "s = []" by (simp add: m_def)
    then show ?thesis by (simp add: unescape_loop_stop unescape_pass_Nil)
  next
    case False
    then obtain i where i: "m = Suc i" by (cases m) auto
    from unescape_loop_last [OF lt] False
    have "(unescape_pass ^^ m) s = (unescape_pass ^^ (m - 1)) s"
      by (simp add: m_def)
    with i have "unescape_pass ((unescape_pass ^^ i) s) = (unescape_pass ^^ i) s" by simp
    then have "unescape_pass ((unescape_pass ^^ m) s) = (unescape_pass ^^ m) s"
      using i by simp
    then show ?thesis unfolding f m_def .
  qed
  show "(unescape_pass ^^ Suc j) s \<noteq> (unescape_pass ^^ j) s"
    if "Suc j < snd (unescape_loop [] s 0)"
    using unescape_loop_changes [of j "[]" s 0] that by simp
  show "unescape_pass s =
     replace_all [BSLASH, BSLASH] [BSLASH]
       (replace_all [BSLASH, SLASH] [SLASH] (replace_all [BSLASH, DQUOTE] [DQUOTE] s))"
    by (simp add: unescape_pass_def)
  show "unescape_pass [BSLASH, BSLASH, DQUOTE] = [BSLASH, DQUOTE]"
    by code_simp
  show "fst (unescape_loop [] (replicate n BSLASH @ DQUOTE # w @ replicate n BSLASH @ [DQUOTE]) 0) =
        DQUOTE # w @ [DQUOTE]"
    if "n < 32 \<and> BSLASH \<notin> set w"
  proof -
    have "[] \<noteq> wrapped n w" by (simp add: wrapped_def)
    then have "fst (unescape_loop [] (wrapped n w) 0) = wrapped 0 w"
      using that by (intro unescape_loop_wrapped) simp_all
    then show ?thesis by (simp add: wrapped_def)
  qed
qed

theorem unescape_loop_bounded_witness:
  \<open>unescape_loop [] (replicate 5 BSLASH @ js ''"key'' @ replicate 5 BSLASH @ js ''"'') 0 =
     (js ''"key"'', 4) \<and>
   unescape_pass (js ''"key"'') = js ''"key"'' \<and>
   (unescape_pass ^^ Suc 0) (replicate 5 BSLASH @ js ''"key'' @ replicate 5 BSLASH @ js ''"'') \<noteq>
     (unescape_pass ^^ 0) (replicate 5 BSLASH @ js ''"key'' @ replicate 5 BSLASH @ js ''"'') \<and>
   fst (unescape_loop [] (replicate 15 BSLASH @ DQUOTE # js ''key'' @ replicate 15 BSLASH @ [DQUOTE]) 0) =
     DQUOTE # js ''key'' @ [DQUOTE]\<close>
proof -
  let ?s = \<open>replicate 5 BSLASH @ js ''"key'' @ replicate 5 BSLASH @ js ''"''\<close>
  note T = unescape_loop_bounded [of ?s 0 15 \<open>js ''key''\<close>]
  have e: \<open>unescape_loop [] ?s 0 = (js ''"key"'', 4)\<close> by code_simp
  then have s4: "snd (unescape_loop [] ?s 0) = 4" and f: \<open>fst (unescape_loop [] ?s 0) = js ''"key"''\<close>
    by simp_all
  have h: \<open>(15::nat) < 32 \<and> BSLASH \<notin> set (js ''key'')\<close> by (simp add: js_def)
  from T have "snd (unescape_loop [] ?s 0) < 5 \<longrightarrow>
      unescape_pass (fst (unescape_loop [] ?s 0)) = fst (unescape_loop [] ?s 0)"
    by blast
  then have c2: \<open>unescape_pass (js ''"key"'') = js ''"key"''\<close>
    unfolding s4 f by simp
  from T have "Suc 0 < snd (unescape_loop [] ?s 0) \<longrightarrow>
      (unescape_pass ^^ Suc 0) ?s \<noteq> (unescape_pass ^^ 0) ?s"
    by blast
  then have c3: "(unescape_pass ^^ Suc 0) ?s \<noteq> (unescape_pass ^^ 0) ?s"
    unfolding s4 by simp
  from T h have c4: \<open>fst (unescape_loop [] (replicate 15 BSLASH @ DQUOTE # js ''key'' @ replicate 15 BSLASH @ [DQUOTE]) 0) =
     DQUOTE # js ''key'' @ [DQUOTE]\<close>
    by blast
  from e c2 c3 c4 show ?thesis by blast
qed


end
